theory Spec2Isabelle
  imports Complex_Main
begin

section \<open>Data model of the simulation engine\<close>

text \<open>
  The engine of \<^verbatim>\<open>eheart/_engine.py\<close> keeps a clock, a flat state vector and a handle to
  an adaptive stepper (scipy's LSODA). Python floats are modelled as reals, numpy vectors
  as lists of reals, a dense-output interpolant as a function from a time to a vector.
  Exceptions are values of \<open>py_error\<close>; an operation that mutates the engine returns its
  outcome together with the engine as the operation leaves it, also when it raises.
\<close>

datatype py_error =
    IndexError
  | KeyError
  | ValueError
  | AttributeError
  | ZeroDivisionError
  | TypeError
  | DecodeError
  | SolverError string

type_synonym interpolant = "real \<Rightarrow> real list"

text \<open>A step-size bound is a float; the default upper bound is \<^verbatim>\<open>np.inf\<close>.\<close>

datatype step_bound = Finite real | Infinite

text \<open>
  \<^verbatim>\<open>Model\<close>: the engine reads only the tuple \<^verbatim>\<open>diffvars\<close> of declared names; the
  derivative function \<^verbatim>\<open>eval_ode\<close> is handed to the stepper together with the model.
\<close>

record model =
  diffvars :: "string list"

text \<open>
  The stepper is an external capability. \<open>LSODA\<close> is its constructor, seeded with the
  model, the time, the state vector and the step options; \<open>step\<close> advances by one
  internally chosen step and returns the failure message (\<open>None\<close> on success) with the
  stepper as the step leaves it; \<open>solver_t\<close> reads the stepper's time and
  \<open>dense_output\<close> the interpolant of the step just taken. Exceptions raised inside the
  library itself (a constructor refusing its arguments, a step asked of a stepper that
  has already failed) are not part of this interface.
\<close>

record 's stepper =
  LSODA :: "model \<Rightarrow> real \<Rightarrow> real list \<Rightarrow> real option \<Rightarrow> step_bound \<Rightarrow> step_bound \<Rightarrow> 's"
  step :: "'s \<Rightarrow> string option \<times> 's"
  solver_t :: "'s \<Rightarrow> real"
  dense_output :: "'s \<Rightarrow> interpolant"

text \<open>
  \<^verbatim>\<open>Engine\<close>: the attributes \<^verbatim>\<open>_ts\<close> and \<^verbatim>\<open>_interpolants\<close> are created by the first
  \<^verbatim>\<open>solve_ivp\<close> and read only while a solver is present; before that they are modelled
  as empty lists.
\<close>

record 's engine =
  engine_model :: model
  engine_t :: real
  engine_y :: "real list"
  engine_init_step :: "real option"
  engine_min_step :: step_bound
  engine_max_step :: step_bound
  engine_solver :: "'s option"
  engine_ts :: "real list"
  engine_interpolants :: "interpolant list"

text \<open>
  \<^verbatim>\<open>Engine.__init__(model, t=0, init_step=None, min_step=0, max_step=np.inf)\<close>: an
  omitted argument is \<open>None\<close> here and takes the default of the signature.
\<close>

definition Engine ::
  "model \<Rightarrow> real option \<Rightarrow> real option \<Rightarrow> step_bound option \<Rightarrow> step_bound option \<Rightarrow> 's engine"
where
  "Engine m t init_step min_step max_step =
     \<lparr>engine_model = m,
      engine_t = (case t of None \<Rightarrow> 0 | Some t' \<Rightarrow> t'),
      engine_y = replicate (length (diffvars m)) 0,
      engine_init_step = init_step,
      engine_min_step = (case min_step of None \<Rightarrow> Finite 0 | Some b \<Rightarrow> b),
      engine_max_step = (case max_step of None \<Rightarrow> Infinite | Some b \<Rightarrow> b),
      engine_solver = None,
      engine_ts = [],
      engine_interpolants = []\<rparr>"

subsection \<open>Variable binding: \<^verbatim>\<open>set_diffvar_values\<close> and \<^verbatim>\<open>get_diffvar_values\<close>\<close>

text \<open>
  \<^verbatim>\<open>for i, var in enumerate(self.model.diffvars): if var in vdict: self._y[i] = vdict[var]\<close>.
  The loop runs over the declared names; a write at a position the vector does not have
  raises \<^verbatim>\<open>IndexError\<close>, the earlier writes staying in place.
\<close>

fun set_diffvar_loop ::
  "(string \<rightharpoonup> real) \<Rightarrow> (nat \<times> string) list \<Rightarrow> real list \<Rightarrow> (py_error + unit) \<times> real list"
where
  "set_diffvar_loop vdict [] ys = (Inr (), ys)"
| "set_diffvar_loop vdict ((i, var) # rest) ys =
     (case vdict var of
        None \<Rightarrow> set_diffvar_loop vdict rest ys
      | Some v \<Rightarrow>
          if i < length ys then set_diffvar_loop vdict rest (ys[i := v])
          else (Inl IndexError, ys))"

definition set_diffvar_values ::
  "'s engine \<Rightarrow> (string \<rightharpoonup> real) \<Rightarrow> (py_error + unit) \<times> 's engine"
where
  "set_diffvar_values e vdict =
     (case set_diffvar_loop vdict (enumerate 0 (diffvars (engine_model e))) (engine_y e) of
        (r, ys) \<Rightarrow> (r, e\<lparr>engine_y := ys\<rparr>))"

text \<open>
  \<^verbatim>\<open>{var: self._y[i] for i, var in enumerate(self.model.diffvars)}\<close>: a later entry of
  the comprehension replaces an earlier one under the same key.
\<close>

fun get_diffvar_loop ::
  "(nat \<times> string) list \<Rightarrow> real list \<Rightarrow> (string \<rightharpoonup> real) \<Rightarrow> py_error + (string \<rightharpoonup> real)"
where
  "get_diffvar_loop [] ys d = Inr d"
| "get_diffvar_loop ((i, var) # rest) ys d =
     (if i < length ys then get_diffvar_loop rest ys (d(var \<mapsto> ys ! i))
      else Inl IndexError)"

definition get_diffvar_values :: "'s engine \<Rightarrow> py_error + (string \<rightharpoonup> real)" where
  "get_diffvar_values e =
     get_diffvar_loop (enumerate 0 (diffvars (engine_model e))) (engine_y e) Map.empty"

subsection \<open>\<^verbatim>\<open>restart\<close>\<close>

text \<open>
  Every supplied argument overwrites its field, an omitted one (\<open>None\<close>) keeps it, and the
  solver is discarded. The supplied vector is stored as it is.
\<close>

definition restart ::
  "'s engine \<Rightarrow> real option \<Rightarrow> real list option \<Rightarrow> real option \<Rightarrow>
     step_bound option \<Rightarrow> step_bound option \<Rightarrow> 's engine"
where
  "restart e t y init_step min_step max_step =
     (let e1 = (case t of None \<Rightarrow> e | Some t' \<Rightarrow> e\<lparr>engine_t := t'\<rparr>);
          e2 = (case y of None \<Rightarrow> e1 | Some y' \<Rightarrow> e1\<lparr>engine_y := y'\<rparr>);
          e3 = (case init_step of None \<Rightarrow> e2 | Some h \<Rightarrow> e2\<lparr>engine_init_step := Some h\<rparr>);
          e4 = (case min_step of None \<Rightarrow> e3 | Some b \<Rightarrow> e3\<lparr>engine_min_step := b\<rparr>);
          e5 = (case max_step of None \<Rightarrow> e4 | Some b \<Rightarrow> e4\<lparr>engine_max_step := b\<rparr>)
      in e5\<lparr>engine_solver := None\<rparr>)"

subsection \<open>The composite interpolant\<close>

text \<open>
  \<^verbatim>\<open>scipy.integrate.OdeSolution(ts, interpolants)\<close> is the library's container of the
  segments. Its constructor refuses time stamps that are neither strictly increasing nor
  strictly decreasing (two equal stamps, a zero-length segment, are accepted) and a number
  of segments other than one less than the number of stamps. A call at a time \<open>t\<close> looks
  the segment up by a binary search (\<^verbatim>\<open>searchsorted\<close>) and evaluates that segment's
  interpolant at \<open>t\<close>; a time outside the stamps is answered by the first or last segment.
\<close>

record ode_solution =
  sol_ts :: "real list"
  sol_interpolants :: "interpolant list"

definition OdeSolution :: "real list \<Rightarrow> interpolant list \<Rightarrow> py_error + ode_solution" where
  "OdeSolution stamps ips =
     (if \<not> ((length stamps = 2 \<and> hd stamps = last stamps) \<or> sorted_wrt (<) stamps \<or> sorted_wrt (>) stamps)
      then Inl ValueError
      else if length stamps \<noteq> length ips + 1 then Inl ValueError
      else Inr \<lparr>sol_ts = stamps, sol_interpolants = ips\<rparr>)"

text \<open>\<^verbatim>\<open>np.searchsorted\<close> on a sorted list: the number of entries below the point.\<close>

definition searchsorted_left :: "real list \<Rightarrow> real \<Rightarrow> nat" where
  "searchsorted_left stamps x = length (filter (\<lambda>u. u < x) stamps)"

definition searchsorted_right :: "real list \<Rightarrow> real \<Rightarrow> nat" where
  "searchsorted_right stamps x = length (filter (\<lambda>u. u \<le> x) stamps)"

text \<open>Python's \<^verbatim>\<open>xs[i]\<close>: a negative index counts from the end.\<close>

definition py_index :: "'a list \<Rightarrow> int \<Rightarrow> py_error + 'a" where
  "py_index xs i =
     (if 0 \<le> i \<and> i < int (length xs) then Inr (xs ! nat i)
      else if i < 0 \<and> - int (length xs) \<le> i then Inr (xs ! nat (int (length xs) + i))
      else Inl IndexError)"

definition ode_solution_call :: "ode_solution \<Rightarrow> real \<Rightarrow> py_error + real list" where
  "ode_solution_call sol x =
     (let stamps = sol_ts sol;
          n_segments = int (length (sol_interpolants sol));
          ascending = (last stamps \<ge> hd stamps);
          ind = (if ascending then int (searchsorted_left stamps x)
                 else int (searchsorted_right (rev stamps) x));
          seg = min (max (ind - 1) 0) (n_segments - 1);
          segment = (if ascending then seg else n_segments - 1 - seg)
      in case py_index (sol_interpolants sol) segment of
           Inl err \<Rightarrow> Inl err
         | Inr f \<Rightarrow> Inr (f x))"

subsection \<open>\<^verbatim>\<open>solve_ivp\<close>\<close>

text \<open>
  The loop \<^verbatim>\<open>while self._ts[-1] < tn\<close>: one stepper step per round; a step that returns
  a message raises \<^verbatim>\<open>SolverError(message)\<close> at once, a successful one appends the
  stepper's time and its dense output. The stepper decides how far a step goes, so the
  loop need not end: a run that never returns is the value \<open>None\<close>.
\<close>

partial_function (option) solve_ivp_loop ::
  "'s stepper \<Rightarrow> real \<Rightarrow> 's \<Rightarrow> 's engine \<Rightarrow> ((py_error + unit) \<times> 's engine) option"
where
  "solve_ivp_loop ops tn s e =
     (case engine_ts e of
        [] \<Rightarrow> Some (Inl IndexError, e)
      | _ # _ \<Rightarrow>
          if last (engine_ts e) < tn then
            (case step ops s of
               (Some message, s') \<Rightarrow>
                 Some (Inl (SolverError message), e\<lparr>engine_solver := Some s'\<rparr>)
             | (None, s') \<Rightarrow>
                 solve_ivp_loop ops tn s'
                   (e\<lparr>engine_solver := Some s',
                      engine_ts := engine_ts e @ [solver_t ops s'],
                      engine_interpolants := engine_interpolants e @ [dense_output ops s']\<rparr>))
          else Some (Inr (), e))"

text \<open>
  The first branch of \<^verbatim>\<open>solve_ivp\<close>: without a solver a fresh one is seeded at the
  current time and state and the history restarts at that time; with a solver the history
  is cut to \<^verbatim>\<open>self._ts[-2:]\<close> and \<^verbatim>\<open>self._interpolants[-1:]\<close>.
\<close>

definition solve_ivp_prepare :: "'s stepper \<Rightarrow> 's engine \<Rightarrow> 's \<times> 's engine" where
  "solve_ivp_prepare ops e =
     (case engine_solver e of
        None \<Rightarrow>
          (let s = LSODA ops (engine_model e) (engine_t e) (engine_y e)
                     (engine_init_step e) (engine_min_step e) (engine_max_step e)
           in (s, e\<lparr>engine_solver := Some s, engine_ts := [engine_t e],
                    engine_interpolants := []\<rparr>))
      | Some s \<Rightarrow>
          (s, e\<lparr>engine_ts := drop (length (engine_ts e) - 2) (engine_ts e),
                engine_interpolants :=
                  drop (length (engine_interpolants e) - 1) (engine_interpolants e)\<rparr>))"

text \<open>
  After the loop: \<^verbatim>\<open>self._t = tn\<close>, then \<^verbatim>\<open>self._y = self._interpolants[-1](tn)\<close>
  (an \<^verbatim>\<open>IndexError\<close> when no segment is held, the time being set already), then the
  composite interpolant is built and returned.
\<close>

definition solve_ivp_finish ::
  "'s engine \<Rightarrow> real \<Rightarrow> (py_error + ode_solution) \<times> 's engine"
where
  "solve_ivp_finish e tn =
     (let e1 = e\<lparr>engine_t := tn\<rparr>
      in case engine_interpolants e1 of
           [] \<Rightarrow> (Inl IndexError, e1)
         | _ # _ \<Rightarrow>
             (let e2 = e1\<lparr>engine_y := last (engine_interpolants e1) tn\<rparr>
              in (OdeSolution (engine_ts e2) (engine_interpolants e2), e2)))"

definition solve_ivp ::
  "'s stepper \<Rightarrow> 's engine \<Rightarrow> real \<Rightarrow> ((py_error + ode_solution) \<times> 's engine) option"
where
  "solve_ivp ops e tn =
     (case solve_ivp_prepare ops e of
        (s, e0) \<Rightarrow>
          (case solve_ivp_loop ops tn s e0 of
             None \<Rightarrow> None
           | Some (Inl err, e1) \<Rightarrow> Some (Inl err, e1)
           | Some (Inr u, e1) \<Rightarrow> Some (solve_ivp_finish e1 tn)))"

text \<open>
  Sequential advances, as the tests make them (\<^verbatim>\<open>engine.solve_ivp(1)\<close>, then
  \<^verbatim>\<open>engine.solve_ivp(2)\<close>): each call runs on the engine the previous one left; the first
  exception ends the sequence.
\<close>

fun solve_ivp_seq ::
  "'s stepper \<Rightarrow> 's engine \<Rightarrow> real list \<Rightarrow> ((py_error + unit) \<times> 's engine) option"
where
  "solve_ivp_seq ops e [] = Some (Inr (), e)"
| "solve_ivp_seq ops e (tn # tns) =
     (case solve_ivp ops e tn of
        None \<Rightarrow> None
      | Some (Inl err, e') \<Rightarrow> Some (Inl err, e')
      | Some (Inr sol, e') \<Rightarrow> solve_ivp_seq ops e' tns)"

subsection \<open>The command session\<close>

text \<open>
  \<^verbatim>\<open>eheart/server/_session.py\<close>. The Protocol Buffers classes (\<^verbatim>\<open>eheart_pb2\<close>) are generated
  code outside the sources; the messages are modelled by the fields the handlers read and
  write. A request is a command with a packed parameter; a handler unpacks the parameter
  into the message type it expects, and a parameter of another type leaves that message
  at its defaults.
\<close>

datatype command =
    INIT
  | SET_DIFFVAR_VAL
  | GET_DIFFVAR_NAME
  | GET_CURRENT_VAL
  | SET_WATCHING_VAR
  | SOLVE_IVP
  | CHANGE_TIME
  | SET_MODEL_CONST
  | EVAL_MODEL_VAR
  | CALL_MODEL_METHOD

datatype generic_value = GenericReal real | GenericInteger int | GenericString string

type_synonym scalar_or_array = "bool \<times> generic_value list"

datatype parameter =
    InitParam string real "string \<rightharpoonup> real"
  | SetDiffvarValParam "string \<rightharpoonup> real"
  | SetWatchingVarParam "string list"
  | SolveIVPParam real real
  | ChangeTimeParam real "string \<rightharpoonup> real"
  | SetModelConstParam "string \<rightharpoonup> real"
  | EvalModelVarParam "string list" real "real list"
  | CallModelMethodParam string "string \<rightharpoonup> scalar_or_array"
  | NoParam

datatype message = Undecodable | Request command parameter

text \<open>
  A status response carries \<^verbatim>\<open>success\<close> and \<^verbatim>\<open>message\<close>; the message of a failure is
  \<^verbatim>\<open>str(err)\<close>, kept here as the exception itself.
\<close>

datatype response =
    StatusResponse bool "py_error option"
  | DiffvarNameResponse "string list"
  | CurrentValResponse real "real list"
  | SolutionResponse "real list" "real list list" "real list list"
  | ValueArrayResponse "real list"
  | MethodReturnResponse "scalar_or_array list"

text \<open>
  \<^verbatim>\<open>Session\<close>: the attributes \<^verbatim>\<open>model\<close>, \<^verbatim>\<open>engine\<close> and \<^verbatim>\<open>restart_needed\<close> do not exist
  until a handler assigns them (\<open>None\<close>); reading a missing attribute raises
  \<^verbatim>\<open>AttributeError\<close>. An outcome is the response a handler returns, or the exception
  that leaves it, with the session as the handler leaves it.
\<close>

record 's session =
  session_model :: "model option"
  session_engine :: "'s engine option"
  restart_needed :: "bool option"
  watching :: "string list"

type_synonym 's outcome = "(py_error + response) \<times> 's session"

text \<open>
  What the session takes from outside the modelled state: the loading of a model class by
  its dotted name (\<^verbatim>\<open>import_module\<close>, \<^verbatim>\<open>getattr\<close>, the constructor), the reading of watched
  attributes off the user's model after a derivative evaluation (\<^verbatim>\<open>Engine.eval\<close> with the
  handler's callback), and the handlers whose effect lies in attributes of the user's model
  class or in keyword arguments passed through unchecked (\<^verbatim>\<open>_change_time\<close>,
  \<^verbatim>\<open>_set_model_const\<close>, \<^verbatim>\<open>_eval_model_var\<close>, \<^verbatim>\<open>_call_model_method\<close>).
\<close>

record 's host =
  load_model :: "string \<Rightarrow> py_error + model"
  eval_watching :: "model \<Rightarrow> string list \<Rightarrow> real list \<Rightarrow> real list list \<Rightarrow> py_error + real list list"
  change_time :: "'s session \<Rightarrow> parameter \<Rightarrow> 's outcome"
  set_model_const :: "'s session \<Rightarrow> parameter \<Rightarrow> 's outcome"
  eval_model_var :: "'s session \<Rightarrow> parameter \<Rightarrow> 's outcome"
  call_model_method :: "'s session \<Rightarrow> parameter \<Rightarrow> 's outcome"

text \<open>
  \<^verbatim>\<open>Session.__init__\<close> sets the handler table and \<^verbatim>\<open>watching = []\<close>, nothing else.
\<close>

definition Session :: "'s session" where
  "Session = \<lparr>session_model = None, session_engine = None, restart_needed = None,
               watching = []\<rparr>"

text \<open>
  The two status responses of the handlers that catch: \<^verbatim>\<open>success = False\<close> with the
  message of the exception, and \<^verbatim>\<open>success = True\<close>.
\<close>

definition failure :: "py_error \<Rightarrow> py_error + response" where
  "failure err = Inr (StatusResponse False (Some err))"

definition success :: "py_error + response" where
  "success = Inr (StatusResponse True None)"

text \<open>
  \<^verbatim>\<open>_init\<close>: everything is inside \<^verbatim>\<open>try\<close>. The model is assigned before the engine is
  built; \<^verbatim>\<open>Engine(self.model, parameter.t, **parameter.options)\<close> raises \<^verbatim>\<open>TypeError\<close>
  for an option that is not a keyword of the constructor.
\<close>

definition init :: "'s host \<Rightarrow> 's session \<Rightarrow> parameter \<Rightarrow> 's outcome" where
  "init h s p =
     (case (case p of InitParam name t options \<Rightarrow> (name, t, options)
                    | _ \<Rightarrow> ('''', 0, Map.empty)) of
        (name, t, options) \<Rightarrow>
          (case load_model h name of
             Inl err \<Rightarrow> (failure err, s)
           | Inr m \<Rightarrow>
               if dom options \<subseteq> {''init_step'', ''min_step'', ''max_step''}
               then (success,
                     s\<lparr>session_model := Some m,
                       session_engine :=
                         Some (Engine m (Some t) (options ''init_step'')
                                 (map_option Finite (options ''min_step''))
                                 (map_option Finite (options ''max_step''))),
                       restart_needed := Some False\<rparr>)
               else (failure TypeError, s\<lparr>session_model := Some m\<rparr>)))"

text \<open>
  \<^verbatim>\<open>_set_diffvar_val\<close>: inside \<^verbatim>\<open>try\<close>, \<^verbatim>\<open>restart_needed\<close> is set first, then the engine
  is reached for.
\<close>

definition set_diffvar_val :: "'s session \<Rightarrow> parameter \<Rightarrow> 's outcome" where
  "set_diffvar_val s p =
     (let valmap = (case p of SetDiffvarValParam m \<Rightarrow> m | _ \<Rightarrow> Map.empty);
          s1 = s\<lparr>restart_needed := Some True\<rparr>
      in case session_engine s1 of
           None \<Rightarrow> (failure AttributeError, s1)
         | Some e \<Rightarrow>
             (case set_diffvar_values e valmap of
                (Inl err, e') \<Rightarrow> (failure err, s1\<lparr>session_engine := Some e'\<rparr>)
              | (Inr u, e') \<Rightarrow> (success, s1\<lparr>session_engine := Some e'\<rparr>)))"

text \<open>
  \<^verbatim>\<open>_get_diffvar_name\<close> and \<^verbatim>\<open>_get_current_val\<close> have no \<^verbatim>\<open>try\<close>: an exception leaves
  the handler.
\<close>

definition get_diffvar_name :: "'s session \<Rightarrow> parameter \<Rightarrow> 's outcome" where
  "get_diffvar_name s p =
     (case session_model s of
        None \<Rightarrow> (Inl AttributeError, s)
      | Some m \<Rightarrow> (Inr (DiffvarNameResponse (diffvars m)), s))"

definition get_current_val :: "'s session \<Rightarrow> parameter \<Rightarrow> 's outcome" where
  "get_current_val s p =
     (case session_engine s of
        None \<Rightarrow> (Inl AttributeError, s)
      | Some e \<Rightarrow> (Inr (CurrentValResponse (engine_t e) (engine_y e)), s))"

text \<open>
  \<^verbatim>\<open>_set_watching_var\<close> stores the names and answers success.
\<close>

definition set_watching_var :: "'s session \<Rightarrow> parameter \<Rightarrow> 's outcome" where
  "set_watching_var s p =
     (success, s\<lparr>watching := (case p of SetWatchingVarParam vars \<Rightarrow> vars | _ \<Rightarrow> [])\<rparr>)"

text \<open>
  \<^verbatim>\<open>np.arange(start, stop, step)\<close> over the reals: the values \<open>start + i * step\<close> for
  \<open>i\<close> below \<open>ceil((stop - start) / step)\<close>, none when that is not positive; a zero
  step raises.
\<close>

definition np_arange :: "real \<Rightarrow> real \<Rightarrow> real \<Rightarrow> py_error + real list" where
  "np_arange start stop stp =
     (if stp = 0 then Inl ZeroDivisionError
      else Inr (map (\<lambda>i. start + real i * stp) [0..<nat \<lceil>(stop - start) / stp\<rceil>]))"

text \<open>
  \<^verbatim>\<open>sol(tout)\<close>, the composite interpolant called with an array of times: every time is
  answered as a single call answers it, the answers being the columns of the result; an
  empty array of times makes the library's concatenation raise \<^verbatim>\<open>ValueError\<close>.
  \<open>collect\<close> stops at the first exception.
\<close>

fun collect :: "(py_error + 'a) list \<Rightarrow> py_error + 'a list" where
  "collect [] = Inr []"
| "collect (Inl err # rs) = Inl err"
| "collect (Inr v # rs) = (case collect rs of Inl err \<Rightarrow> Inl err | Inr vs \<Rightarrow> Inr (v # vs))"

definition ode_solution_call_array :: "ode_solution \<Rightarrow> real list \<Rightarrow> py_error + real list list" where
  "ode_solution_call_array sol tout =
     (if tout = [] then Inl ValueError else collect (map (ode_solution_call sol) tout))"

text \<open>
  \<^verbatim>\<open>y[i]\<close>: the \<open>i\<close>-th row of the sampled array, one entry per time.
\<close>

definition row :: "real list list \<Rightarrow> nat \<Rightarrow> py_error + real list" where
  "row columns i =
     (if list_all (\<lambda>c. i < length c) columns then Inr (map (\<lambda>c. c ! i) columns)
      else Inl IndexError)"

text \<open>
  The \<^verbatim>\<open>else\<close> branch of \<^verbatim>\<open>_solve_ivp\<close>, outside \<^verbatim>\<open>try\<close>: the time grid, one row per
  entry of \<^verbatim>\<open>self.engine.y\<close>, one row per watched name.
\<close>

definition solution_response ::
  "'s session \<Rightarrow> real list \<Rightarrow> real list list \<Rightarrow> real list list \<Rightarrow> py_error + response"
where
  "solution_response s tout y watched =
     (case session_engine s of
        None \<Rightarrow> Inl AttributeError
      | Some e \<Rightarrow>
          (case collect (map (row y) [0..<length (engine_y e)]) of
             Inl err \<Rightarrow> Inl err
           | Inr rows \<Rightarrow>
               (case collect (map (py_index watched \<circ> int) [0..<length (watching s)]) of
                  Inl err \<Rightarrow> Inl err
                | Inr wrows \<Rightarrow> Inr (SolutionResponse tout rows wrows))))"

text \<open>
  \<^verbatim>\<open>Session._solve_ivp\<close>. Inside \<^verbatim>\<open>try\<close>: the pending restart, \<^verbatim>\<open>tprev = self.engine.t\<close>,
  the advance, the grid \<^verbatim>\<open>np.arange(tprev, parameter.tn + tstep, tstep)\<close>, the samples
  \<^verbatim>\<open>sol(tout)\<close> and, when names are watched, their evaluation. An exception there becomes
  a failure response; the engine keeps what the advance did to it.
\<close>

definition solve_ivp_command ::
  "'s stepper \<Rightarrow> 's host \<Rightarrow> 's session \<Rightarrow> parameter \<Rightarrow> 's outcome option"
where
  "solve_ivp_command ops h s p =
     (case (case p of SolveIVPParam tn interval \<Rightarrow> (tn, interval) | _ \<Rightarrow> (0, 0)) of
        (tn, tstep) \<Rightarrow>
          (case restart_needed s of
             None \<Rightarrow> Some (failure AttributeError, s)
           | Some needed \<Rightarrow>
               (case session_engine s of
                  None \<Rightarrow> Some (failure AttributeError, s)
                | Some e0 \<Rightarrow>
                    (let e = (if needed then restart e0 None None None None None else e0);
                         s1 = (if needed
                               then s\<lparr>session_engine := Some e, restart_needed := Some False\<rparr>
                               else s);
                         tprev = engine_t e
                     in case solve_ivp ops e tn of
                          None \<Rightarrow> None
                        | Some (Inl err, e') \<Rightarrow>
                            Some (failure err, s1\<lparr>session_engine := Some e'\<rparr>)
                        | Some (Inr sol, e') \<Rightarrow>
                            (let s2 = s1\<lparr>session_engine := Some e'\<rparr>
                             in case np_arange tprev (tn + tstep) tstep of
                                  Inl err \<Rightarrow> Some (failure err, s2)
                                | Inr tout \<Rightarrow>
                                    (case ode_solution_call_array sol tout of
                                       Inl err \<Rightarrow> Some (failure err, s2)
                                     | Inr y \<Rightarrow>
                                         (case (if watching s2 = [] then Inr []
                                                else eval_watching h (engine_model e')
                                                       (watching s2) tout y) of
                                            Inl err \<Rightarrow> Some (failure err, s2)
                                          | Inr watched \<Rightarrow>
                                              Some (solution_response s2 tout y watched, s2))))))))"

text \<open>
  \<^verbatim>\<open>process\<close>: parse the message, look the handler up in \<^verbatim>\<open>COMMAND_FUNCS\<close>, call it and
  serialise what it returns. Nothing is caught here: an exception of the parser or of a
  handler leaves \<^verbatim>\<open>process\<close>.
\<close>

definition COMMAND_FUNCS ::
  "'s stepper \<Rightarrow> 's host \<Rightarrow> command \<Rightarrow> 's session \<Rightarrow> parameter \<Rightarrow> 's outcome option"
where
  "COMMAND_FUNCS ops h c =
     (case c of
        INIT \<Rightarrow> (\<lambda>s p. Some (init h s p))
      | SET_DIFFVAR_VAL \<Rightarrow> (\<lambda>s p. Some (set_diffvar_val s p))
      | GET_DIFFVAR_NAME \<Rightarrow> (\<lambda>s p. Some (get_diffvar_name s p))
      | GET_CURRENT_VAL \<Rightarrow> (\<lambda>s p. Some (get_current_val s p))
      | SET_WATCHING_VAR \<Rightarrow> (\<lambda>s p. Some (set_watching_var s p))
      | SOLVE_IVP \<Rightarrow> solve_ivp_command ops h
      | CHANGE_TIME \<Rightarrow> (\<lambda>s p. Some (change_time h s p))
      | SET_MODEL_CONST \<Rightarrow> (\<lambda>s p. Some (set_model_const h s p))
      | EVAL_MODEL_VAR \<Rightarrow> (\<lambda>s p. Some (eval_model_var h s p))
      | CALL_MODEL_METHOD \<Rightarrow> (\<lambda>s p. Some (call_model_method h s p)))"

definition process ::
  "'s stepper \<Rightarrow> 's host \<Rightarrow> 's session \<Rightarrow> message \<Rightarrow> 's outcome option"
where
  "process ops h s msg =
     (case msg of
        Undecodable \<Rightarrow> Some (Inl DecodeError, s)
      | Request c p \<Rightarrow> COMMAND_FUNCS ops h c s p)"

subsection \<open>Fixtures\<close>

text \<open>
  The model of the repository's tests (\<^verbatim>\<open>SingleExpModel\<close>): one differential variable
  \<^verbatim>\<open>y\<close>; and the engine \<^verbatim>\<open>Engine(SingleExpModel())\<close> built from it.
\<close>

definition single_exp_model :: model where
  "single_exp_model = \<lparr>diffvars = [''y'']\<rparr>"

definition fresh_engine :: "(real \<times> real list) engine" where
  "fresh_engine = Engine single_exp_model None None None None"

text \<open>
  A stepper to run the engine on: it takes steps of length one, each adding one to every
  component, and answers queries inside a step with the value at the step's end; once its
  time has reached \<open>limit\<close> a step reports failure and leaves the stepper as it was.
\<close>

definition unit_stepper :: "real \<Rightarrow> (real \<times> real list) stepper" where
  "unit_stepper limit =
     \<lparr>LSODA = (\<lambda>m t y init_step min_step max_step. (t, y)),
      step = (\<lambda>s. if fst s < limit then (None, (fst s + 1, map (\<lambda>v. v + 1) (snd s)))
                   else (Some ''step failed'', s)),
      solver_t = fst,
      dense_output = (\<lambda>s x. snd s)\<rparr>"

text \<open>The engine of the tests after \<^verbatim>\<open>engine.solve_ivp(3)\<close>: a solver is present.\<close>

definition running_engine :: "(real \<times> real list) engine" where
  "running_engine =
     (case solve_ivp (unit_stepper 10) fresh_engine 3 of Some (r, e) \<Rightarrow> e | None \<Rightarrow> fresh_engine)"

text \<open>The session of the tests after a successful \<^verbatim>\<open>INIT\<close> of the test model.\<close>

definition initialized_session :: "(real \<times> real list) session" where
  "initialized_session =
     \<lparr>session_model = Some single_exp_model, session_engine = Some fresh_engine,
      restart_needed = Some False, watching = []\<rparr>"

section \<open>Construction\<close>

text \<open>
  C10. A newly constructed engine holds the all-zeros vector with one entry per declared
  differential variable, its time is the constructor's argument \<open>t\<close> (zero when omitted),
  it has no stepper, and the model is the one it was given, untouched: construction calls
  neither the derivative function nor the stepper's constructor.
\<close>

theorem Engine_init_state:
  "engine_y (Engine m t i lo hi) = replicate (length (diffvars m)) 0
   \<and> length (engine_y (Engine m t i lo hi)) = length (diffvars m)
   \<and> engine_t (Engine m (Some t0) i lo hi) = t0
   \<and> engine_t (Engine m None i lo hi) = 0
   \<and> engine_solver (Engine m t i lo hi) = None
   \<and> engine_model (Engine m t i lo hi) = m"
  by (simp add: Engine_def)

section \<open>Variable binding\<close>

lemma set_diffvar_loop_ok:
  "k + length names \<le> length ys \<Longrightarrow>
   \<exists>ys'. set_diffvar_loop vdict (enumerate k names) ys = (Inr (), ys')
     \<and> length ys' = length ys
     \<and> (\<forall>j<length ys. ys' ! j =
           (if k \<le> j \<and> j < k + length names
            then (case vdict (names ! (j - k)) of Some v \<Rightarrow> v | None \<Rightarrow> ys ! j)
            else ys ! j))"
proof (induction names arbitrary: k ys)
  case Nil
  then show ?case by simp
next
  case (Cons a names)
  show ?case
  proof (cases "vdict a")
    case None
    from Cons.prems have "Suc k + length names \<le> length ys" by simp
    from Cons.IH[OF this] obtain ys' where
      h: "set_diffvar_loop vdict (enumerate (Suc k) names) ys = (Inr (), ys')"
         "length ys' = length ys"
         "\<forall>j<length ys. ys' ! j =
           (if Suc k \<le> j \<and> j < Suc k + length names
            then (case vdict (names ! (j - Suc k)) of Some v \<Rightarrow> v | None \<Rightarrow> ys ! j)
            else ys ! j)" by blast
    have "\<forall>j<length ys. ys' ! j =
           (if k \<le> j \<and> j < k + length (a # names)
            then (case vdict ((a # names) ! (j - k)) of Some v \<Rightarrow> v | None \<Rightarrow> ys ! j)
            else ys ! j)"
    proof (intro allI impI)
      fix j assume j: "j < length ys"
      show "ys' ! j =
           (if k \<le> j \<and> j < k + length (a # names)
            then (case vdict ((a # names) ! (j - k)) of Some v \<Rightarrow> v | None \<Rightarrow> ys ! j)
            else ys ! j)"
      proof (cases "j = k")
        case True
        then show ?thesis using h(3) j None by simp
      next
        case False
        then show ?thesis using h(3) j by (auto simp: nth_Cons' Suc_diff_le)
      qed
    qed
    with h None show ?thesis by simp
  next
    case (Some v)
    from Cons.prems have lt: "k < length ys" by simp
    from Cons.prems have "Suc k + length names \<le> length (ys[k := v])" by simp
    from Cons.IH[OF this] obtain ys' where
      h: "set_diffvar_loop vdict (enumerate (Suc k) names) (ys[k := v]) = (Inr (), ys')"
         "length ys' = length ys"
         "\<forall>j<length ys. ys' ! j =
           (if Suc k \<le> j \<and> j < Suc k + length names
            then (case vdict (names ! (j - Suc k)) of Some v \<Rightarrow> v | None \<Rightarrow> ys[k := v] ! j)
            else ys[k := v] ! j)" by auto
    have "\<forall>j<length ys. ys' ! j =
           (if k \<le> j \<and> j < k + length (a # names)
            then (case vdict ((a # names) ! (j - k)) of Some v \<Rightarrow> v | None \<Rightarrow> ys ! j)
            else ys ! j)"
    proof (intro allI impI)
      fix j assume j: "j < length ys"
      show "ys' ! j =
           (if k \<le> j \<and> j < k + length (a # names)
            then (case vdict ((a # names) ! (j - k)) of Some v \<Rightarrow> v | None \<Rightarrow> ys ! j)
            else ys ! j)"
      proof (cases "j = k")
        case True
        then show ?thesis using h(3) j Some lt by simp
      next
        case False
        then show ?thesis using h(3) j by (auto simp: nth_Cons' Suc_diff_le split: option.splits)
      qed
    qed
    with h Some lt show ?thesis by simp
  qed
qed

lemma get_diffvar_loop_ok:
  "\<forall>p\<in>set ps. fst p < length ys \<Longrightarrow>
   get_diffvar_loop ps ys d = Inr (d ++ map_of (rev (map (\<lambda>p. (snd p, ys ! fst p)) ps)))"
proof (induction ps arbitrary: d)
  case Nil
  then show ?case by simp
next
  case (Cons p ps)
  obtain i var where p: "p = (i, var)" by (cases p)
  from Cons.prems p have "i < length ys" and rest: "\<forall>p\<in>set ps. fst p < length ys" by auto
  have eq: "d ++ map_of (rev (map (\<lambda>p. (snd p, ys ! fst p)) (p # ps)))
          = d(var \<mapsto> ys ! i) ++ map_of (rev (map (\<lambda>p. (snd p, ys ! fst p)) ps))"
    by (simp add: p fun_eq_iff map_add_def split: option.splits)
  have "get_diffvar_loop (p # ps) ys d = get_diffvar_loop ps ys (d(var \<mapsto> ys ! i))"
    using \<open>i < length ys\<close> p by simp
  also have "\<dots> = Inr (d(var \<mapsto> ys ! i) ++ map_of (rev (map (\<lambda>p. (snd p, ys ! fst p)) ps)))"
    by (rule Cons.IH[OF rest])
  finally show ?case by (simp only: eq)
qed

lemma map_of_rev_keyed:
  "map_of (rev (map (\<lambda>p. (snd p, f (snd p) (g p))) ps)) n
     = map_option (f n) (map_of (rev (map (\<lambda>p. (snd p, g p)) ps)) n)"
  by (induction ps) (auto simp: map_add_def split: option.splits)

lemma get_diffvar_values_ok:
  assumes "length (diffvars (engine_model e)) \<le> length (engine_y e)"
  shows "get_diffvar_values e =
     Inr (map_of (rev (map (\<lambda>p. (snd p, engine_y e ! fst p))
                        (enumerate 0 (diffvars (engine_model e))))))"
proof -
  have "\<forall>p\<in>set (enumerate 0 (diffvars (engine_model e))). fst p < length (engine_y e)"
    using assms by (auto simp: in_set_enumerate_eq)
  from get_diffvar_loop_ok[OF this, of Map.empty] show ?thesis
    by (simp add: get_diffvar_values_def)
qed

lemma dom_enumerate_map:
  "(map_of (rev (map (\<lambda>p. (snd p, g p)) (enumerate k names))) n = None) = (n \<notin> set names)"
proof -
  have "snd ` set (enumerate k names) = set names"
    by (simp only: set_map[symmetric] map_snd_enumerate)
  then have "fst ` set (rev (map (\<lambda>p. (snd p, g p)) (enumerate k names))) = set names"
    by (simp add: image_image)
  then show ?thesis by (simp only: map_of_eq_None_iff)
qed

text \<open>
  C5. On an engine whose vector has one entry per declared name, \<^verbatim>\<open>set_diffvar_values\<close>
  with any mapping succeeds, and \<^verbatim>\<open>get_diffvar_values\<close> afterwards returns, for every
  declared name, the written value when the mapping has the name and the value read
  before otherwise; it has no other key. Positions whose name the mapping lacks keep
  their entry, and nothing but the vector changes.
\<close>

theorem set_then_get_diffvar_values:
  assumes len: "length (engine_y e) = length (diffvars (engine_model e))"
  shows "\<exists>e' d0 d1.
      set_diffvar_values e vdict = (Inr (), e')
    \<and> get_diffvar_values e = Inr d0
    \<and> get_diffvar_values e' = Inr d1
    \<and> (\<forall>n. d1 n = (if n \<in> set (diffvars (engine_model e))
                     then (case vdict n of Some v \<Rightarrow> Some v | None \<Rightarrow> d0 n)
                     else None))
    \<and> (\<forall>i<length (engine_y e).
          vdict (diffvars (engine_model e) ! i) = None \<longrightarrow> engine_y e' ! i = engine_y e ! i)
    \<and> e' = e\<lparr>engine_y := engine_y e'\<rparr>
    \<and> length (engine_y e') = length (engine_y e)"
proof -
  define names where "names = diffvars (engine_model e)"
  define ys where "ys = engine_y e"
  define h where "h = (\<lambda>n old. case vdict n of Some v \<Rightarrow> v | None \<Rightarrow> (old::real))"
  have len2: "length ys = length names" using len by (simp add: names_def ys_def)
  then have "0 + length names \<le> length ys" by simp
  from set_diffvar_loop_ok[OF this, of vdict] obtain ys' where
    run: "set_diffvar_loop vdict (enumerate 0 names) ys = (Inr (), ys')"
    and len': "length ys' = length ys"
    and nth': "\<forall>j<length ys. ys' ! j =
           (if j < length names then (case vdict (names ! j) of Some v \<Rightarrow> v | None \<Rightarrow> ys ! j)
            else ys ! j)"
    by auto
  define e' where "e' = e\<lparr>engine_y := ys'\<rparr>"
  have set_eq: "set_diffvar_values e vdict = (Inr (), e')"
    using run by (simp add: set_diffvar_values_def names_def ys_def e'_def)
  define d0 where "d0 = map_of (rev (map (\<lambda>p. (snd p, ys ! fst p)) (enumerate 0 names)))"
  define d1 where "d1 = map_of (rev (map (\<lambda>p. (snd p, ys' ! fst p)) (enumerate 0 names)))"
  have get0: "get_diffvar_values e = Inr d0"
    using get_diffvar_values_ok[of e] len by (simp add: d0_def names_def ys_def)
  have get1: "get_diffvar_values e' = Inr d1"
    using get_diffvar_values_ok[of e'] len len'
    by (simp add: d1_def names_def ys_def e'_def)
  have meq: "map (\<lambda>p. (snd p, ys' ! fst p)) (enumerate 0 names)
      = map (\<lambda>p. (snd p, h (snd p) (ys ! fst p))) (enumerate 0 names)"
  proof (rule map_cong[OF refl])
    fix p assume "p \<in> set (enumerate 0 names)"
    then have "fst p < length names" and "names ! fst p = snd p"
      by (auto simp: in_set_enumerate_eq)
    then show "(snd p, ys' ! fst p) = (snd p, h (snd p) (ys ! fst p))"
      using nth' len2 by (simp add: h_def)
  qed
  have d1_eq: "\<And>n. d1 n = map_option (h n) (d0 n)"
    unfolding d1_def d0_def meq by (rule map_of_rev_keyed[of h "\<lambda>p. ys ! fst p"])
  have d0_dom: "\<And>n. (d0 n = None) = (n \<notin> set names)"
    unfolding d0_def by (rule dom_enumerate_map)
  have main: "\<forall>n. d1 n = (if n \<in> set names
                     then (case vdict n of Some v \<Rightarrow> Some v | None \<Rightarrow> d0 n)
                     else None)"
  proof
    fix n
    show "d1 n = (if n \<in> set names
                     then (case vdict n of Some v \<Rightarrow> Some v | None \<Rightarrow> d0 n)
                     else None)"
      using d1_eq[of n] d0_dom[of n]
      by (cases "d0 n") (auto simp: h_def split: option.splits)
  qed
  have untouched: "\<forall>i<length ys. vdict (names ! i) = None \<longrightarrow> ys' ! i = ys ! i"
    using nth' by simp
  show ?thesis
    using set_eq get0 get1 main untouched len'
    by (intro exI[of _ e'] exI[of _ d0] exI[of _ d1])
       (simp add: names_def ys_def e'_def)
qed

lemma restrict_declared:
  "\<forall>p\<in>set ps. snd p \<in> D \<Longrightarrow>
   set_diffvar_loop (vdict |` D) ps ys = set_diffvar_loop vdict ps ys"
  by (induction ps arbitrary: ys) (auto split: option.splits)

theorem set_then_get_diffvar_values_witness:
  "length (engine_y fresh_engine) = length (diffvars (engine_model fresh_engine))
   \<and> (\<exists>e' d1. set_diffvar_values fresh_engine [''y'' \<mapsto> 10] = (Inr (), e')
        \<and> get_diffvar_values e' = Inr d1 \<and> d1 ''y'' = Some 10)"
proof -
  have h: "length (engine_y fresh_engine) = length (diffvars (engine_model fresh_engine))"
    by (simp add: fresh_engine_def Engine_def)
  from set_then_get_diffvar_values[OF h, of "[''y'' \<mapsto> 10]"] obtain e' d0 d1 where
    r: "set_diffvar_values fresh_engine [''y'' \<mapsto> 10] = (Inr (), e')"
       "get_diffvar_values e' = Inr d1"
       "\<forall>n. d1 n = (if n \<in> set (diffvars (engine_model fresh_engine))
                     then (case [''y'' \<mapsto> 10::real] n of Some v \<Rightarrow> Some v | None \<Rightarrow> d0 n)
                     else None)"
    by blast
  from r(3) have "d1 ''y'' = Some 10"
    by (simp add: fresh_engine_def Engine_def single_exp_model_def)
  with h r(1,2) show ?thesis by blast
qed

lemma snd_enumerate_mem: "p \<in> set (enumerate k xs) \<Longrightarrow> snd p \<in> set xs"
  by (metis image_eqI map_snd_enumerate set_map)

lemma set_diffvar_loop_no_hit:
  "\<forall>p\<in>set ps. vdict (snd p) = None \<Longrightarrow> set_diffvar_loop vdict ps ys = (Inr (), ys)"
  by (induction ps arbitrary: ys) auto

lemma set_diffvar_loop_length:
  "length (snd (set_diffvar_loop vdict ps ys)) = length ys"
  by (induction ps arbitrary: ys) (auto split: option.splits)

text \<open>
  C7 as stated fails: the engine has no name resolution that raises. On the test model a
  write under the undeclared name \<^verbatim>\<open>z\<close> returns normally and leaves the engine as it was.
\<close>

theorem undeclared_write_accepted:
  "''z'' \<notin> set (diffvars (engine_model fresh_engine))
   \<and> set_diffvar_values fresh_engine [''z'' \<mapsto> 1] = (Inr (), fresh_engine)"
  by (simp add: fresh_engine_def Engine_def single_exp_model_def set_diffvar_values_def
        enumerate_eq_zip)

text \<open>
  C7, amended. \<^verbatim>\<open>set_diffvar_values\<close> looks up declared names only: it behaves as on the
  mapping cut down to the declared names, and a mapping none of whose names is declared
  is accepted without error and without any change of the engine.
\<close>

theorem set_diffvar_values_ignores_undeclared:
  "set_diffvar_values e vdict
     = set_diffvar_values e (vdict |` set (diffvars (engine_model e)))
   \<and> (dom vdict \<inter> set (diffvars (engine_model e)) = {}
        \<longrightarrow> set_diffvar_values e vdict = (Inr (), e))"
proof (intro conjI impI)
  have "\<forall>p\<in>set (enumerate 0 (diffvars (engine_model e))).
          snd p \<in> set (diffvars (engine_model e))"
    by (auto intro: snd_enumerate_mem)
  from restrict_declared[OF this, of vdict "engine_y e"]
  show "set_diffvar_values e vdict
     = set_diffvar_values e (vdict |` set (diffvars (engine_model e)))"
    by (simp add: set_diffvar_values_def)
next
  assume d: "dom vdict \<inter> set (diffvars (engine_model e)) = {}"
  have "\<forall>p\<in>set (enumerate 0 (diffvars (engine_model e))). vdict (snd p) = None"
  proof
    fix p assume "p \<in> set (enumerate 0 (diffvars (engine_model e)))"
    then have "snd p \<in> set (diffvars (engine_model e))"
      by (rule snd_enumerate_mem)
    with d show "vdict (snd p) = None" by auto
  qed
  from set_diffvar_loop_no_hit[OF this, of "engine_y e"]
  show "set_diffvar_values e vdict = (Inr (), e)"
    by (simp add: set_diffvar_values_def)
qed

theorem set_diffvar_values_ignores_undeclared_witness:
  "dom [''z'' \<mapsto> 1::real] \<inter> set (diffvars (engine_model fresh_engine)) = {}
   \<and> set_diffvar_values fresh_engine [''z'' \<mapsto> 1] = (Inr (), fresh_engine)"
proof -
  have h: "dom [''z'' \<mapsto> 1::real] \<inter> set (diffvars (engine_model fresh_engine)) = {}"
    by (simp add: fresh_engine_def Engine_def single_exp_model_def)
  from set_diffvar_values_ignores_undeclared[of fresh_engine "[''z'' \<mapsto> 1]"] h
  show ?thesis by blast
qed

text \<open>
  C9 as stated fails: \<^verbatim>\<open>restart\<close> stores a supplied vector unchecked. Restarting the
  one-variable test engine with a vector of two entries leaves a state vector whose
  length is not the number of declared variables.
\<close>

theorem restart_changes_length:
  "length (engine_y (restart fresh_engine None (Some [1, 2]) None None None))
     \<noteq> length (diffvars (engine_model (restart fresh_engine None (Some [1, 2]) None None None)))"
  by (simp add: restart_def fresh_engine_def Engine_def single_exp_model_def)

lemma restart_fields:
  "engine_model (restart e t y i lo hi) = engine_model e"
  "engine_y (restart e t None i lo hi) = engine_y e"
  "engine_y (restart e t (Some y') i lo hi) = y'"
  "engine_solver (restart e t y i lo hi) = None"
  by (simp_all add: restart_def Let_def split: option.splits)

section \<open>The stepping loop\<close>

lemmas solve_ivp_loop_induct =
  solve_ivp_loop.raw_induct[rotated 1, consumes 1, case_names step]

lemma solve_ivp_loop_trace:
  assumes "solve_ivp_loop ops tn s e = Some res"
  shows "\<exists>ss. engine_ts (snd res) = engine_ts e @ map (solver_t ops) ss
     \<and> engine_interpolants (snd res) = engine_interpolants e @ map (dense_output ops) ss
     \<and> snd res = e\<lparr>engine_solver := engine_solver (snd res), engine_ts := engine_ts (snd res),
                    engine_interpolants := engine_interpolants (snd res)\<rparr>
     \<and> (\<forall>i<length ss. step ops ((s # ss) ! i) = (None, ss ! i))
     \<and> (case fst res of
           Inr u \<Rightarrow> engine_ts (snd res) \<noteq> [] \<and> \<not> last (engine_ts (snd res)) < tn
               \<and> (if ss = [] then snd res = e
                   else last (butlast (engine_ts (snd res))) < tn
                      \<and> engine_solver (snd res) = Some (last ss))
         | Inl err \<Rightarrow>
             (if engine_ts e = [] then err = IndexError \<and> ss = [] \<and> snd res = e
              else \<exists>m sf. err = SolverError m \<and> step ops (last (s # ss)) = (Some m, sf)
                     \<and> engine_solver (snd res) = Some sf
                     \<and> last (engine_ts (snd res)) < tn))"
  using assms
proof (induct rule: solve_ivp_loop_induct)
  case (step loop ops tn s e res)
  note 1 = step.hyps
  show ?case
  proof (cases "engine_ts e = []")
    case True
    with 1(2) have "res = (Inl IndexError, e)" by (simp split: list.splits)
    then show ?thesis using True by (intro exI[of _ "[]"]) simp
  next
    case nonempty: False
    show ?thesis
    proof (cases "last (engine_ts e) < tn")
      case False
      with 1(2) nonempty have "res = (Inr (), e)" by (simp split: list.splits)
      then show ?thesis using nonempty False by (intro exI[of _ "[]"]) simp
    next
      case lt: True
      obtain msg s1 where st: "step ops s = (msg, s1)" by (cases "step ops s")
      show ?thesis
      proof (cases msg)
        case (Some m)
        with 1(2) nonempty lt st
        have "res = (Inl (SolverError m), e\<lparr>engine_solver := Some s1\<rparr>)"
          by (simp split: list.splits)
        then show ?thesis using nonempty lt st Some by (intro exI[of _ "[]"]) simp
      next
        case None
        define e1 where "e1 = e\<lparr>engine_solver := Some s1,
                      engine_ts := engine_ts e @ [solver_t ops s1],
                      engine_interpolants := engine_interpolants e @ [dense_output ops s1]\<rparr>"
        from 1(2) nonempty lt st None have rec: "loop ops tn s1 e1 = Some res"
          by (simp add: e1_def split: list.splits)
        from 1(1)[OF rec] obtain ss1 where
          a: "engine_ts (snd res) = engine_ts e1 @ map (solver_t ops) ss1"
          and b: "engine_interpolants (snd res) = engine_interpolants e1 @ map (dense_output ops) ss1"
          and c: "snd res = e1\<lparr>engine_solver := engine_solver (snd res), engine_ts := engine_ts (snd res),
                    engine_interpolants := engine_interpolants (snd res)\<rparr>"
          and d: "\<forall>i<length ss1. step ops ((s1 # ss1) ! i) = (None, ss1 ! i)"
          and f: "(case fst res of
           Inr u \<Rightarrow> engine_ts (snd res) \<noteq> [] \<and> \<not> last (engine_ts (snd res)) < tn
               \<and> (if ss1 = [] then snd res = e1
                   else last (butlast (engine_ts (snd res))) < tn
                      \<and> engine_solver (snd res) = Some (last ss1))
         | Inl err \<Rightarrow>
             (if engine_ts e1 = [] then err = IndexError \<and> ss1 = [] \<and> snd res = e1
              else \<exists>m sf. err = SolverError m \<and> step ops (last (s1 # ss1)) = (Some m, sf)
                     \<and> engine_solver (snd res) = Some sf
                     \<and> last (engine_ts (snd res)) < tn))"
          by blast
        let ?ss = "s1 # ss1"
        have a': "engine_ts (snd res) = engine_ts e @ map (solver_t ops) ?ss"
          using a by (simp add: e1_def)
        have b': "engine_interpolants (snd res) = engine_interpolants e @ map (dense_output ops) ?ss"
          using b by (simp add: e1_def)
        have c': "snd res = e\<lparr>engine_solver := engine_solver (snd res), engine_ts := engine_ts (snd res),
                    engine_interpolants := engine_interpolants (snd res)\<rparr>"
          by (subst c) (simp add: e1_def)
        have d': "\<forall>i<length ?ss. step ops ((s # ?ss) ! i) = (None, ?ss ! i)"
        proof (intro allI impI)
          fix i assume "i < length ?ss"
          then show "step ops ((s # ?ss) ! i) = (None, ?ss ! i)"
            using d st None by (cases i) auto
        qed
        have f': "(case fst res of
           Inr u \<Rightarrow> engine_ts (snd res) \<noteq> [] \<and> \<not> last (engine_ts (snd res)) < tn
               \<and> (if ?ss = [] then snd res = e
                   else last (butlast (engine_ts (snd res))) < tn
                      \<and> engine_solver (snd res) = Some (last ?ss))
         | Inl err \<Rightarrow>
             (if engine_ts e = [] then err = IndexError \<and> ?ss = [] \<and> snd res = e
              else \<exists>m sf. err = SolverError m \<and> step ops (last (s # ?ss)) = (Some m, sf)
                     \<and> engine_solver (snd res) = Some sf
                     \<and> last (engine_ts (snd res)) < tn))"
        proof (cases "fst res")
          case (Inr u)
          show ?thesis
          proof (cases "ss1 = []")
            case True
            with f Inr have "snd res = e1" by simp
            then show ?thesis using f Inr True lt nonempty by (simp add: e1_def)
          next
            case False
            then show ?thesis using f Inr by simp
          qed
        next
          case (Inl err)
          have "engine_ts e1 \<noteq> []" by (simp add: e1_def)
          with f Inl nonempty show ?thesis by simp
        qed
        from a' b' c' d' f' show ?thesis by blast
      qed
    qed
  qed
qed

lemma solve_ivp_loop_Inr:
  assumes "solve_ivp_loop ops tn s e = Some (Inr u, e')"
  shows "\<exists>ss. engine_ts e' = engine_ts e @ map (solver_t ops) ss
     \<and> engine_interpolants e' = engine_interpolants e @ map (dense_output ops) ss
     \<and> e' = e\<lparr>engine_solver := engine_solver e', engine_ts := engine_ts e',
                engine_interpolants := engine_interpolants e'\<rparr>
     \<and> (\<forall>i<length ss. step ops ((s # ss) ! i) = (None, ss ! i))
     \<and> engine_ts e' \<noteq> [] \<and> \<not> last (engine_ts e') < tn
     \<and> (if ss = [] then e' = e
          else last (butlast (engine_ts e')) < tn \<and> engine_solver e' = Some (last ss))"
  using solve_ivp_loop_trace[OF assms] unfolding fst_conv snd_conv sum.case .

lemma solve_ivp_loop_Inl:
  assumes "solve_ivp_loop ops tn s e = Some (Inl err, e')"
  shows "\<exists>ss. engine_ts e' = engine_ts e @ map (solver_t ops) ss
     \<and> engine_interpolants e' = engine_interpolants e @ map (dense_output ops) ss
     \<and> e' = e\<lparr>engine_solver := engine_solver e', engine_ts := engine_ts e',
                engine_interpolants := engine_interpolants e'\<rparr>
     \<and> (\<forall>i<length ss. step ops ((s # ss) ! i) = (None, ss ! i))
     \<and> (if engine_ts e = [] then err = IndexError \<and> ss = [] \<and> e' = e
          else \<exists>m sf. err = SolverError m \<and> step ops (last (s # ss)) = (Some m, sf)
                 \<and> engine_solver e' = Some sf \<and> last (engine_ts e') < tn)"
  using solve_ivp_loop_trace[OF assms] unfolding fst_conv snd_conv sum.case .

lemma solve_ivp_loop_empty:
  "engine_ts e = [] \<Longrightarrow> solve_ivp_loop ops tn s e = Some (Inl IndexError, e)"
  by (subst solve_ivp_loop.simps) simp

lemma solve_ivp_loop_done:
  "engine_ts e \<noteq> [] \<Longrightarrow> \<not> last (engine_ts e) < tn \<Longrightarrow>
   solve_ivp_loop ops tn s e = Some (Inr (), e)"
  by (subst solve_ivp_loop.simps) (simp split: list.splits)

lemma solve_ivp_loop_fail:
  "engine_ts e \<noteq> [] \<Longrightarrow> last (engine_ts e) < tn \<Longrightarrow> fst (step ops s) = Some m \<Longrightarrow>
   solve_ivp_loop ops tn s e
     = Some (Inl (SolverError m), e\<lparr>engine_solver := Some (snd (step ops s))\<rparr>)"
  by (subst solve_ivp_loop.simps, cases "step ops s") (auto split: list.splits)

lemma solve_ivp_loop_step:
  "engine_ts e \<noteq> [] \<Longrightarrow> last (engine_ts e) < tn \<Longrightarrow> fst (step ops s) = None \<Longrightarrow>
   solve_ivp_loop ops tn s e
     = solve_ivp_loop ops tn (snd (step ops s))
         (e\<lparr>engine_solver := Some (snd (step ops s)),
            engine_ts := engine_ts e @ [solver_t ops (snd (step ops s))],
            engine_interpolants :=
              engine_interpolants e @ [dense_output ops (snd (step ops s))]\<rparr>)"
  by (subst solve_ivp_loop.simps, cases "step ops s") (auto split: list.splits)

lemmas loop_eval = solve_ivp_loop_empty solve_ivp_loop_done solve_ivp_loop_fail
  solve_ivp_loop_step

lemmas fixture_defs = fresh_engine_def Engine_def single_exp_model_def unit_stepper_def

lemmas solve_ivp_eval = solve_ivp_def solve_ivp_prepare_def loop_eval
  solve_ivp_finish_def OdeSolution_def Let_def

lemma running_engine_eq:
  "running_engine =
     \<lparr>engine_model = \<lparr>diffvars = [''y'']\<rparr>, engine_t = 3, engine_y = [3],
      engine_init_step = None, engine_min_step = Finite 0, engine_max_step = Infinite,
      engine_solver = Some (3, [3]), engine_ts = [0, 1, 2, 3],
      engine_interpolants = [\<lambda>x. [1], \<lambda>x. [2], \<lambda>x. [3]]\<rparr>"
  by (simp add: running_engine_def solve_ivp_eval fixture_defs)

section \<open>The composite interpolant at the target time\<close>

lemma solve_ivp_prepare_frame:
  assumes "solve_ivp_prepare ops e = (s0, e0)"
  shows "engine_t e0 = engine_t e" and "engine_y e0 = engine_y e"
    and "engine_model e0 = engine_model e" and "engine_solver e0 = Some s0"
    and "length (engine_interpolants e0) \<le> 1"
  using assms by (auto simp: solve_ivp_prepare_def Let_def split: option.splits)

lemma composite_single_segment:
  "ode_solution_call \<lparr>sol_ts = stamps, sol_interpolants = [f]\<rparr> x = Inr (f x)"
  by (simp add: ode_solution_call_def py_index_def Let_def)

lemma filter_below_last:
  assumes "sorted_wrt (<) (ys @ [b])" and "ys \<noteq> []" and "last ys < x" and "\<not> b < (x::real)"
  shows "filter (\<lambda>u. u < x) (ys @ [b]) = ys"
proof -
  have "\<forall>u\<in>set ys. u < x"
  proof
    fix u assume u: "u \<in> set ys"
    obtain zs where zs: "ys = zs @ [last ys]"
      using assms(2) by (metis append_butlast_last_id)
    from assms(1) have "sorted_wrt (<) ys" by (simp add: sorted_wrt_append)
    then have "\<forall>v\<in>set zs. v < last ys"
      by (subst (asm) zs) (simp add: sorted_wrt_append)
    moreover from u zs have "u \<in> set zs \<or> u = last ys"
      by (metis Un_iff empty_iff insert_iff list.set(1) list.set(2) set_append)
    ultimately show "u < x" using assms(3) by auto
  qed
  then show ?thesis using assms(4) by simp
qed

lemma composite_last_segment:
  assumes ok: "OdeSolution stamps ips = Inr sol"
    and ne: "ips \<noteq> []"
    and lo: "last (butlast stamps) < x"
    and hi: "\<not> last stamps < x"
  shows "ode_solution_call sol x = Inr (last ips x)"
proof -
  from ok have sol: "sol = \<lparr>sol_ts = stamps, sol_interpolants = ips\<rparr>"
    and len: "length stamps = length ips + 1"
    and shape: "(length stamps = 2 \<and> hd stamps = last stamps) \<or> sorted_wrt (<) stamps
                 \<or> sorted_wrt (>) stamps"
    by (auto simp: OdeSolution_def split: if_splits)
  define ys where "ys = butlast stamps"
  define b where "b = last stamps"
  from len have "stamps \<noteq> []" by auto
  then have st: "stamps = ys @ [b]" by (simp add: ys_def b_def)
  from len ne have "length ys = length ips" by (simp add: ys_def)
  with ne have ysne: "ys \<noteq> []" by auto
  have ab: "last ys < b" using lo hi by (simp add: ys_def b_def)
  have lastmem: "last ys \<in> set ys" using ysne by simp
  have hdmem: "hd ys \<in> set ys" using ysne by simp
  have inc: "sorted_wrt (<) (ys @ [b])"
  proof -
    have "\<not> sorted_wrt (>) (ys @ [b])"
    proof
      assume "sorted_wrt (>) (ys @ [b])"
      then have "\<forall>u\<in>set ys. b < u" by (simp add: sorted_wrt_append)
      with lastmem have "b < last ys" by blast
      with ab show False by simp
    qed
    moreover have "\<not> (length stamps = 2 \<and> hd stamps = last stamps)"
    proof
      assume h: "length stamps = 2 \<and> hd stamps = last stamps"
      then have "length ys = 1" using st by simp
      then obtain a where "ys = [a]" by (cases ys) auto
      with h st ab show False by simp
    qed
    ultimately show ?thesis using shape st by blast
  qed
  have asc: "hd stamps \<le> last stamps"
  proof -
    from inc hdmem have "hd ys < b" by (simp add: sorted_wrt_append)
    then show ?thesis using st ysne by simp
  qed
  have cnt: "searchsorted_left stamps x = length ips"
  proof -
    have "filter (\<lambda>u. u < x) (ys @ [b]) = ys"
      using filter_below_last[OF inc ysne] lo hi by (simp add: ys_def b_def)
    then show ?thesis using st len by (simp add: searchsorted_left_def)
  qed
  have idx: "py_index ips (int (length ips) - 1) = Inr (last ips)"
    using ne by (cases ips rule: rev_cases) (auto simp: py_index_def nth_append)
  have pos: "0 < length ips" using ne by simp
  show ?thesis
    unfolding ode_solution_call_def sol
    using asc cnt idx pos by (simp add: Let_def)
qed

section \<open>Advancing\<close>

lemma solve_ivp_outcome:
  assumes "solve_ivp ops e tn = Some (r, e')"
  shows "\<exists>s0 e0. solve_ivp_prepare ops e = (s0, e0)
           \<and> ((\<exists>err. solve_ivp_loop ops tn s0 e0 = Some (Inl err, e') \<and> r = Inl err)
              \<or> (\<exists>e1. solve_ivp_loop ops tn s0 e0 = Some (Inr (), e1)
                      \<and> solve_ivp_finish e1 tn = (r, e')))"
  using assms
  by (auto simp: solve_ivp_def split: prod.splits option.splits sum.splits)

lemma solve_ivp_finish_Inr:
  assumes "solve_ivp_finish e1 tn = (Inr sol, e')"
  shows "engine_interpolants e1 \<noteq> []"
    and "e' = e1\<lparr>engine_t := tn, engine_y := last (engine_interpolants e1) tn\<rparr>"
    and "OdeSolution (engine_ts e1) (engine_interpolants e1) = Inr sol"
  using assms by (auto simp: solve_ivp_finish_def Let_def split: list.splits)

lemma solve_ivp_finish_Inl:
  assumes "solve_ivp_finish e1 tn = (Inl err, e')"
  shows "err = IndexError \<or> err = ValueError"
  using assms
  by (auto simp: solve_ivp_finish_def OdeSolution_def Let_def split: list.splits if_splits)

lemma solve_ivp_success_parts:
  assumes run: "solve_ivp ops e tn = Some (Inr sol, e')"
  shows "engine_t e' = tn"
    and "engine_interpolants e' \<noteq> []"
    and "engine_y e' = last (engine_interpolants e') tn"
    and "sol = \<lparr>sol_ts = engine_ts e', sol_interpolants = engine_interpolants e'\<rparr>"
    and "ode_solution_call sol tn = Inr (engine_y e')"
    and "\<exists>ss. engine_ts e' = engine_ts (snd (solve_ivp_prepare ops e)) @ map (solver_t ops) ss
            \<and> engine_interpolants e'
                = engine_interpolants (snd (solve_ivp_prepare ops e)) @ map (dense_output ops) ss"
proof -
  from solve_ivp_outcome[OF run] obtain s0 e0 e1 where
    prep: "solve_ivp_prepare ops e = (s0, e0)"
    and loop: "solve_ivp_loop ops tn s0 e0 = Some (Inr (), e1)"
    and fin: "solve_ivp_finish e1 tn = (Inr sol, e')"
    by auto
  note f = solve_ivp_finish_Inr[OF fin]
  from solve_ivp_loop_Inr[OF loop] obtain ss where
    ts1: "engine_ts e1 = engine_ts e0 @ map (solver_t ops) ss"
    and ips1: "engine_interpolants e1 = engine_interpolants e0 @ map (dense_output ops) ss"
    and hi: "\<not> last (engine_ts e1) < tn"
    and shape: "if ss = [] then e1 = e0
                else last (butlast (engine_ts e1)) < tn \<and> engine_solver e1 = Some (last ss)"
    by blast
  show t: "engine_t e' = tn" using f(2) by simp
  show ne: "engine_interpolants e' \<noteq> []" using f(1,2) by simp
  show y: "engine_y e' = last (engine_interpolants e') tn" using f(2) by simp
  show sol: "sol = \<lparr>sol_ts = engine_ts e', sol_interpolants = engine_interpolants e'\<rparr>"
    using f(2,3) by (auto simp: OdeSolution_def split: if_splits)
  show "ode_solution_call sol tn = Inr (engine_y e')"
  proof (cases "ss = []")
    case True
    with shape have "e1 = e0" by simp
    with solve_ivp_prepare_frame(5)[OF prep] f(1)
    obtain g where g: "engine_interpolants e1 = [g]"
      by (cases "engine_interpolants e1") auto
    with f(2) have "engine_interpolants e' = [g]" by simp
    with sol y show ?thesis by (simp add: composite_single_segment)
  next
    case False
    with shape have lo: "last (butlast (engine_ts e1)) < tn" by simp
    from composite_last_segment[OF f(3) f(1) lo hi] f(2) show ?thesis by simp
  qed
  show "\<exists>ss. engine_ts e' = engine_ts (snd (solve_ivp_prepare ops e)) @ map (solver_t ops) ss
            \<and> engine_interpolants e'
                = engine_interpolants (snd (solve_ivp_prepare ops e)) @ map (dense_output ops) ss"
    using ts1 ips1 f(2) prep by (intro exI[of _ ss]) simp
qed

lemma solve_ivp_seq_time:
  "tns \<noteq> [] \<Longrightarrow> solve_ivp_seq ops e tns = Some (Inr (), e'') \<Longrightarrow> engine_t e'' = last tns"
proof (induction tns arbitrary: e)
  case Nil
  then show ?case by simp
next
  case (Cons tn tns)
  from Cons.prems(2) obtain sol e1 where
    one: "solve_ivp ops e tn = Some (Inr sol, e1)"
    and rest: "solve_ivp_seq ops e1 tns = Some (Inr (), e'')"
    by (auto split: option.splits sum.splits prod.splits)
  show ?case
  proof (cases "tns = []")
    case True
    with rest have "e'' = e1" by simp
    with solve_ivp_success_parts(1)[OF one] True show ?thesis by simp
  next
    case False
    with Cons.IH[OF False rest] show ?thesis by simp
  qed
qed

text \<open>
  C1. Whenever \<^verbatim>\<open>solve_ivp(tn)\<close> returns normally (from a running engine or any other),
  the engine's time is exactly \<open>tn\<close>, its state vector is the last retained segment
  evaluated at \<open>tn\<close>, which is what the returned composite interpolant answers at \<open>tn\<close>,
  and the returned composite holds exactly the engine's retained stamps and segments: those
  the call started from followed by one per step taken. Hence after a sequence of
  successful advances the engine's time is the last target.
\<close>

theorem solve_ivp_success:
  "(solve_ivp ops e tn = Some (Inr sol, e') \<longrightarrow>
      engine_t e' = tn
    \<and> engine_interpolants e' \<noteq> []
    \<and> engine_y e' = last (engine_interpolants e') tn
    \<and> ode_solution_call sol tn = Inr (engine_y e')
    \<and> sol = \<lparr>sol_ts = engine_ts e', sol_interpolants = engine_interpolants e'\<rparr>
    \<and> (\<exists>ss. engine_ts e' = engine_ts (snd (solve_ivp_prepare ops e)) @ map (solver_t ops) ss
            \<and> engine_interpolants e'
                = engine_interpolants (snd (solve_ivp_prepare ops e)) @ map (dense_output ops) ss))
   \<and> (tns \<noteq> [] \<and> solve_ivp_seq ops e tns = Some (Inr (), e'') \<longrightarrow> engine_t e'' = last tns)"
  using solve_ivp_success_parts[of ops e tn sol e'] solve_ivp_seq_time[of tns ops e e'']
  by blast

theorem solve_ivp_success_witness:
  "engine_solver running_engine \<noteq> None
   \<and> (\<exists>sol e'. solve_ivp (unit_stepper 10) running_engine 5 = Some (Inr sol, e')
        \<and> engine_t e' = 5 \<and> engine_y e' = [5]
        \<and> ode_solution_call sol 5 = Inr [5]
        \<and> sol_ts sol = [2, 3, 4, 5])
   \<and> (\<exists>e''. solve_ivp_seq (unit_stepper 10) fresh_engine [1, 2] = Some (Inr (), e'')
        \<and> engine_t e'' = 2)"
proof -
  obtain sol e' where run: "solve_ivp (unit_stepper 10) running_engine 5 = Some (Inr sol, e')"
    and y: "engine_y e' = [5]" and st: "sol_ts sol = [2, 3, 4, 5]"
    by (simp add: running_engine_eq solve_ivp_eval fixture_defs)
  obtain e'' where seq: "solve_ivp_seq (unit_stepper 10) fresh_engine [1, 2] = Some (Inr (), e'')"
    by (simp add: solve_ivp_eval fixture_defs)
  from solve_ivp_success[of "unit_stepper 10" running_engine 5 sol e' "[1, 2]" e''] run
  have a: "engine_t e' = 5" and b: "ode_solution_call sol 5 = Inr (engine_y e')"
    by blast+
  from solve_ivp_success[of "unit_stepper 10" fresh_engine 5 sol e' "[1, 2]" e''] seq
  have c: "engine_t e'' = 2" by simp
  have d: "engine_solver running_engine \<noteq> None" by (simp add: running_engine_eq)
  from run y st seq a b c d show ?thesis by auto
qed

section \<open>History kept by a continuing advance\<close>

lemma drop_last_two:
  "2 \<le> length xs \<Longrightarrow> drop (length xs - 2) xs = [last (butlast xs), last xs]"
proof (induction xs rule: rev_induct)
  case Nil
  then show ?case by simp
next
  case (snoc b xs)
  then have "xs \<noteq> []" by auto
  then obtain ys a where "xs = ys @ [a]" by (metis rev_exhaust)
  then show ?case by (simp add: butlast_append)
qed

lemma drop_last_one: "xs \<noteq> [] \<Longrightarrow> drop (length xs - 1) xs = [last xs]"
  by (induction xs rule: rev_induct) auto

lemma solve_ivp_prepare_running:
  "engine_solver e = Some s \<Longrightarrow>
   solve_ivp_prepare ops e =
     (s, e\<lparr>engine_ts := drop (length (engine_ts e) - 2) (engine_ts e),
           engine_interpolants :=
             drop (length (engine_interpolants e) - 1) (engine_interpolants e)\<rparr>)"
  by (simp add: solve_ivp_prepare_def)

lemma solve_ivp_history:
  assumes run: "solve_ivp ops e tn = Some (r, e')"
    and prep: "solve_ivp_prepare ops e = (s0, e0)"
  shows "\<exists>ss. (\<forall>i<length ss. step ops ((s0 # ss) ! i) = (None, ss ! i))
           \<and> engine_ts e' = engine_ts e0 @ map (solver_t ops) ss
           \<and> engine_interpolants e' = engine_interpolants e0 @ map (dense_output ops) ss"
proof -
  from solve_ivp_outcome[OF run] prep consider
    (err) err where "solve_ivp_loop ops tn s0 e0 = Some (Inl err, e')"
  | (fin) e1 where "solve_ivp_loop ops tn s0 e0 = Some (Inr (), e1)"
      "solve_ivp_finish e1 tn = (r, e')"
    by auto
  then show ?thesis
  proof cases
    case err
    from solve_ivp_loop_Inl[OF err] show ?thesis by blast
  next
    case fin
    from solve_ivp_loop_Inr[OF fin(1)] obtain ss where
      a: "\<forall>i<length ss. step ops ((s0 # ss) ! i) = (None, ss ! i)"
      and b: "engine_ts e1 = engine_ts e0 @ map (solver_t ops) ss"
      and c: "engine_interpolants e1 = engine_interpolants e0 @ map (dense_output ops) ss"
      by blast
    from fin(2) have "engine_ts e' = engine_ts e1"
      and "engine_interpolants e' = engine_interpolants e1"
      by (auto simp: solve_ivp_finish_def Let_def split: list.splits)
    with a b c show ?thesis by (intro exI[of _ ss]) simp
  qed
qed

text \<open>
  C4. When a solver is present, \<^verbatim>\<open>solve_ivp\<close> first cuts the history to
  \<^verbatim>\<open>self._ts[-2:]\<close> and \<^verbatim>\<open>self._interpolants[-1:]\<close> and keeps the solver it has: of two
  or more stamps exactly the last two remain, of one or more segments exactly the last.
  Whatever the outcome of the call, the history it leaves is that cut history followed by
  one stamp and one segment per step the existing solver took; older segments are gone.
\<close>

theorem solve_ivp_prunes_history:
  assumes running: "engine_solver e = Some s"
  shows "solve_ivp_prepare ops e =
           (s, e\<lparr>engine_ts := drop (length (engine_ts e) - 2) (engine_ts e),
                 engine_interpolants :=
                   drop (length (engine_interpolants e) - 1) (engine_interpolants e)\<rparr>)
    \<and> (2 \<le> length (engine_ts e) \<longrightarrow>
          drop (length (engine_ts e) - 2) (engine_ts e)
            = [last (butlast (engine_ts e)), last (engine_ts e)])
    \<and> (engine_interpolants e \<noteq> [] \<longrightarrow>
          drop (length (engine_interpolants e) - 1) (engine_interpolants e)
            = [last (engine_interpolants e)])
    \<and> (\<forall>r e'. solve_ivp ops e tn = Some (r, e') \<longrightarrow>
          (\<exists>ss. (\<forall>i<length ss. step ops ((s # ss) ! i) = (None, ss ! i))
             \<and> engine_ts e'
                 = drop (length (engine_ts e) - 2) (engine_ts e) @ map (solver_t ops) ss
             \<and> engine_interpolants e'
                 = drop (length (engine_interpolants e) - 1) (engine_interpolants e)
                     @ map (dense_output ops) ss))"
proof (intro conjI allI impI)
  show p: "solve_ivp_prepare ops e =
           (s, e\<lparr>engine_ts := drop (length (engine_ts e) - 2) (engine_ts e),
                 engine_interpolants :=
                   drop (length (engine_interpolants e) - 1) (engine_interpolants e)\<rparr>)"
    by (rule solve_ivp_prepare_running[OF running])
  show "drop (length (engine_ts e) - 2) (engine_ts e)
            = [last (butlast (engine_ts e)), last (engine_ts e)]"
    if "2 \<le> length (engine_ts e)" using that by (rule drop_last_two)
  show "drop (length (engine_interpolants e) - 1) (engine_interpolants e)
            = [last (engine_interpolants e)]"
    if "engine_interpolants e \<noteq> []" using that by (rule drop_last_one)
  fix r e' assume run: "solve_ivp ops e tn = Some (r, e')"
  from solve_ivp_history[OF run p]
  show "\<exists>ss. (\<forall>i<length ss. step ops ((s # ss) ! i) = (None, ss ! i))
             \<and> engine_ts e'
                 = drop (length (engine_ts e) - 2) (engine_ts e) @ map (solver_t ops) ss
             \<and> engine_interpolants e'
                 = drop (length (engine_interpolants e) - 1) (engine_interpolants e)
                     @ map (dense_output ops) ss"
    by simp
qed

theorem solve_ivp_prunes_history_witness:
  "engine_solver running_engine = Some (3, [3])
   \<and> engine_ts running_engine = [0, 1, 2, 3]
   \<and> (\<exists>r e'. solve_ivp (unit_stepper 10) running_engine 5 = Some (r, e')
         \<and> engine_ts e' = [2, 3, 4, 5]
         \<and> length (engine_interpolants e') = 3)
   \<and> fst (solve_ivp_prepare (unit_stepper 10) running_engine) = (3, [3])
   \<and> engine_ts (snd (solve_ivp_prepare (unit_stepper 10) running_engine)) = [2, 3]"
proof -
  have h: "engine_solver running_engine = Some (3, [3])" by (simp add: running_engine_eq)
  note th = solve_ivp_prunes_history[OF h, of "unit_stepper 10" 5]
  have run: "\<exists>r e'. solve_ivp (unit_stepper 10) running_engine 5 = Some (r, e')
         \<and> engine_ts e' = [2, 3, 4, 5] \<and> length (engine_interpolants e') = 3"
    by (simp add: running_engine_eq solve_ivp_eval fixture_defs)
  from th have "fst (solve_ivp_prepare (unit_stepper 10) running_engine) = (3, [3])"
    and "engine_ts (snd (solve_ivp_prepare (unit_stepper 10) running_engine))
           = drop (length (engine_ts running_engine) - 2) (engine_ts running_engine)"
    by simp_all
  then show ?thesis using h run by (simp add: running_engine_eq)
qed

section \<open>Backward targets\<close>

text \<open>
  C2 as stated fails: \<^verbatim>\<open>solve_ivp\<close> has no check of the target against the current time.
  The running test engine stands at time 3; asked for time 1 it returns a composite
  interpolant, and its time is then 1.
\<close>

theorem backward_advance_succeeds:
  "1 < engine_t running_engine
   \<and> (\<exists>sol e'. solve_ivp (unit_stepper 10) running_engine 1 = Some (Inr sol, e')
         \<and> engine_t e' = 1 \<and> engine_y e' = [3] \<and> engine_ts e' = [2, 3])"
  by (simp add: running_engine_eq solve_ivp_eval fixture_defs)

lemma last_drop_keep: "n < length xs \<Longrightarrow> last (drop n xs) = last xs"
  by (simp add: last_drop)

text \<open>
  C2, amended. On an engine with a solver and at least one retained segment, whose time
  is not beyond its last recorded stamp (the state every successful advance leaves), a
  target below the current time takes no stepper step and raises no backward-time error:
  the call cuts the history as every continuing call does, sets the time to \<open>tn\<close> and
  the state to the last retained segment evaluated at \<open>tn\<close>, keeps the solver, and
  returns the composite of the two retained stamps and that segment (built without error
  when the two stamps increase).
\<close>

theorem solve_ivp_backward:
  assumes running: "engine_solver e = Some s"
    and stamps: "engine_ts e \<noteq> []"
    and segs: "engine_interpolants e \<noteq> []"
    and clock: "engine_t e \<le> last (engine_ts e)"
    and earlier: "tn < engine_t e"
  shows "solve_ivp ops e tn =
      Some (OdeSolution (drop (length (engine_ts e) - 2) (engine_ts e))
              [last (engine_interpolants e)],
            e\<lparr>engine_ts := drop (length (engine_ts e) - 2) (engine_ts e),
              engine_interpolants := [last (engine_interpolants e)],
              engine_t := tn,
              engine_y := last (engine_interpolants e) tn\<rparr>)
    \<and> (2 \<le> length (engine_ts e) \<and> last (butlast (engine_ts e)) < last (engine_ts e) \<longrightarrow>
         OdeSolution (drop (length (engine_ts e) - 2) (engine_ts e))
              [last (engine_interpolants e)]
           = Inr \<lparr>sol_ts = [last (butlast (engine_ts e)), last (engine_ts e)],
                  sol_interpolants = [last (engine_interpolants e)]\<rparr>)"
proof (intro conjI impI)
  define e0 where "e0 = e\<lparr>engine_ts := drop (length (engine_ts e) - 2) (engine_ts e),
           engine_interpolants :=
             drop (length (engine_interpolants e) - 1) (engine_interpolants e)\<rparr>"
  have prep: "solve_ivp_prepare ops e = (s, e0)"
    unfolding e0_def by (rule solve_ivp_prepare_running[OF running])
  have pos: "length (engine_ts e) - 2 < length (engine_ts e)"
    using stamps by (cases "engine_ts e") auto
  have ne0: "engine_ts e0 \<noteq> []" using pos by (simp add: e0_def)
  have "last (engine_ts e0) = last (engine_ts e)"
    using pos by (simp add: e0_def last_drop_keep)
  with clock earlier have stop: "\<not> last (engine_ts e0) < tn" by simp
  have loop: "solve_ivp_loop ops tn s e0 = Some (Inr (), e0)"
    by (rule solve_ivp_loop_done[OF ne0 stop])
  have ips0: "engine_interpolants e0 = [last (engine_interpolants e)]"
    using drop_last_one[OF segs] by (simp add: e0_def)
  show "solve_ivp ops e tn =
      Some (OdeSolution (drop (length (engine_ts e) - 2) (engine_ts e))
              [last (engine_interpolants e)],
            e\<lparr>engine_ts := drop (length (engine_ts e) - 2) (engine_ts e),
              engine_interpolants := [last (engine_interpolants e)],
              engine_t := tn,
              engine_y := last (engine_interpolants e) tn\<rparr>)"
    using prep loop ips0
    by (simp add: solve_ivp_def solve_ivp_finish_def Let_def e0_def)
next
  assume h: "2 \<le> length (engine_ts e) \<and> last (butlast (engine_ts e)) < last (engine_ts e)"
  then have "drop (length (engine_ts e) - 2) (engine_ts e)
      = [last (butlast (engine_ts e)), last (engine_ts e)]"
    by (simp add: drop_last_two)
  with h show "OdeSolution (drop (length (engine_ts e) - 2) (engine_ts e))
              [last (engine_interpolants e)]
           = Inr \<lparr>sol_ts = [last (butlast (engine_ts e)), last (engine_ts e)],
                  sol_interpolants = [last (engine_interpolants e)]\<rparr>"
    by (simp add: OdeSolution_def)
qed

theorem solve_ivp_backward_witness:
  "engine_solver running_engine = Some (3, [3])
   \<and> engine_ts running_engine \<noteq> []
   \<and> engine_interpolants running_engine \<noteq> []
   \<and> engine_t running_engine \<le> last (engine_ts running_engine)
   \<and> 1 < engine_t running_engine
   \<and> (\<exists>sol e'. solve_ivp (unit_stepper 10) running_engine 1 = Some (Inr sol, e')
         \<and> engine_solver e' = Some (3, [3]) \<and> engine_t e' = 1 \<and> engine_y e' = [3]
         \<and> sol_ts sol = [2, 3])"
proof -
  have h: "engine_solver running_engine = Some (3, [3])"
    "engine_ts running_engine \<noteq> []"
    "engine_interpolants running_engine \<noteq> []"
    "engine_t running_engine \<le> last (engine_ts running_engine)"
    "1 < engine_t running_engine"
    by (simp_all add: running_engine_eq)
  from solve_ivp_backward[OF h, of "unit_stepper 10"]
  have "\<exists>sol e'. solve_ivp (unit_stepper 10) running_engine 1 = Some (Inr sol, e')
         \<and> engine_solver e' = Some (3, [3]) \<and> engine_t e' = 1 \<and> engine_y e' = [3]
         \<and> sol_ts sol = [2, 3]"
    by (simp add: running_engine_eq)
  with h show ?thesis by blast
qed

section \<open>Stepper failure\<close>

text \<open>
  C3 as stated fails: the engine's time and state are assigned only after the loop. With
  a stepper that fails once its time has reached 2, advancing the fresh test engine to 5
  raises \<^verbatim>\<open>SolverError\<close> after two completed steps; the recorded stamps end at 2, but the
  engine's time and state are still those before the call, 0 and \<open>[0]\<close>.
\<close>

theorem failed_step_keeps_old_time:
  "\<exists>e'. solve_ivp (unit_stepper 2) fresh_engine 5
           = Some (Inl (SolverError ''step failed''), e')
       \<and> engine_ts e' = [0, 1, 2] \<and> engine_t e' = 0 \<and> engine_y e' = [0]
       \<and> engine_t e' \<noteq> last (engine_ts e')"
  by (simp add: solve_ivp_eval fixture_defs)

lemma solve_ivp_loop_fails_after:
  assumes "engine_ts e \<noteq> []"
    and "\<forall>i<length ss. step ops ((s # ss) ! i) = (None, ss ! i)"
    and "\<forall>i\<le>length ss. last (engine_ts e @ map (solver_t ops) (take i ss)) < tn"
    and "step ops (last (s # ss)) = (Some m, sf)"
  shows "solve_ivp_loop ops tn s e =
     Some (Inl (SolverError m),
           e\<lparr>engine_solver := Some sf,
             engine_ts := engine_ts e @ map (solver_t ops) ss,
             engine_interpolants := engine_interpolants e @ map (dense_output ops) ss\<rparr>)"
  using assms
proof (induction ss arbitrary: s e)
  case Nil
  from Nil.prems(3) have lt: "last (engine_ts e) < tn" by simp
  from Nil.prems(4) have f: "fst (step ops s) = Some m" and sf: "snd (step ops s) = sf"
    by simp_all
  show ?case using solve_ivp_loop_fail[OF Nil.prems(1) lt f] sf by simp
next
  case (Cons s1 ss)
  from Cons.prems(3) have lt: "last (engine_ts e) < tn" by (auto dest: spec[of _ 0])
  from Cons.prems(2) have st: "step ops s = (None, s1)" by (auto dest: spec[of _ 0])
  define e1 where "e1 = e\<lparr>engine_solver := Some s1,
            engine_ts := engine_ts e @ [solver_t ops s1],
            engine_interpolants := engine_interpolants e @ [dense_output ops s1]\<rparr>"
  have unfold: "solve_ivp_loop ops tn s e = solve_ivp_loop ops tn s1 e1"
    using solve_ivp_loop_step[OF Cons.prems(1) lt, of ops s] st by (simp add: e1_def)
  have ne1: "engine_ts e1 \<noteq> []" by (simp add: e1_def)
  have chain1: "\<forall>i<length ss. step ops ((s1 # ss) ! i) = (None, ss ! i)"
  proof (intro allI impI)
    fix i assume "i < length ss"
    then have "Suc i < length (s1 # ss)" by simp
    with Cons.prems(2) have "step ops ((s # s1 # ss) ! Suc i) = (None, (s1 # ss) ! Suc i)"
      by blast
    then show "step ops ((s1 # ss) ! i) = (None, ss ! i)" by simp
  qed
  have below1: "\<forall>i\<le>length ss. last (engine_ts e1 @ map (solver_t ops) (take i ss)) < tn"
  proof (intro allI impI)
    fix i assume "i \<le> length ss"
    then have "Suc i \<le> length (s1 # ss)" by simp
    with Cons.prems(3)
    have "last (engine_ts e @ map (solver_t ops) (take (Suc i) (s1 # ss))) < tn" by blast
    then show "last (engine_ts e1 @ map (solver_t ops) (take i ss)) < tn"
      by (simp add: e1_def)
  qed
  have fail1: "step ops (last (s1 # ss)) = (Some m, sf)" using Cons.prems(4) by simp
  from Cons.IH[OF ne1 chain1 below1 fail1] unfold
  show ?case by (simp add: e1_def)
qed

text \<open>
  C3, amended. If, after any number of successful steps each started below the target, the
  next step reports a failure message \<open>m\<close>, then \<^verbatim>\<open>solve_ivp\<close> raises
  \<^verbatim>\<open>SolverError(m)\<close>; the engine's time and state vector are those before the call; the
  stamps and segments of the steps completed in this call stay recorded after the history
  the call started from; the solver is the failed one; the last recorded stamp is below
  the target.
\<close>

theorem solve_ivp_step_failure:
  assumes prep: "solve_ivp_prepare ops e = (s0, e0)"
    and stamps: "engine_ts e0 \<noteq> []"
    and chain: "\<forall>i<length ss. step ops ((s0 # ss) ! i) = (None, ss ! i)"
    and below: "\<forall>i\<le>length ss. last (engine_ts e0 @ map (solver_t ops) (take i ss)) < tn"
    and fail: "step ops (last (s0 # ss)) = (Some m, sf)"
  shows "\<exists>e'. solve_ivp ops e tn = Some (Inl (SolverError m), e')
     \<and> engine_t e' = engine_t e
     \<and> engine_y e' = engine_y e
     \<and> engine_solver e' = Some sf
     \<and> engine_ts e' = engine_ts e0 @ map (solver_t ops) ss
     \<and> engine_interpolants e' = engine_interpolants e0 @ map (dense_output ops) ss
     \<and> last (engine_ts e') < tn"
proof -
  define e' where "e' = e0\<lparr>engine_solver := Some sf,
             engine_ts := engine_ts e0 @ map (solver_t ops) ss,
             engine_interpolants := engine_interpolants e0 @ map (dense_output ops) ss\<rparr>"
  have loop: "solve_ivp_loop ops tn s0 e0 = Some (Inl (SolverError m), e')"
    unfolding e'_def by (rule solve_ivp_loop_fails_after[OF stamps chain below fail])
  have run: "solve_ivp ops e tn = Some (Inl (SolverError m), e')"
    using prep loop by (simp add: solve_ivp_def)
  have frame: "engine_t e' = engine_t e" "engine_y e' = engine_y e"
    using solve_ivp_prepare_frame(1,2)[OF prep] by (simp_all add: e'_def)
  have "last (engine_ts e0 @ map (solver_t ops) (take (length ss) ss)) < tn"
    using below by blast
  then have "last (engine_ts e') < tn" by (simp add: e'_def)
  with run frame show ?thesis by (intro exI[of _ e']) (simp add: e'_def)
qed

theorem solve_ivp_step_failure_witness:
  "step (unit_stepper 2) (0, [0]) = (None, (1, [1]))
   \<and> step (unit_stepper 2) (1, [1]) = (None, (2, [2]))
   \<and> step (unit_stepper 2) (2, [2]) = (Some ''step failed'', (2, [2]))
   \<and> (\<exists>e'. solve_ivp (unit_stepper 2) fresh_engine 5
                = Some (Inl (SolverError ''step failed''), e')
          \<and> engine_t e' = engine_t fresh_engine \<and> engine_y e' = engine_y fresh_engine
          \<and> engine_solver e' = Some (2, [2]) \<and> engine_ts e' = [0, 1, 2])"
proof -
  define e0 where "e0 = snd (solve_ivp_prepare (unit_stepper 2) fresh_engine)"
  define ss :: "(real \<times> real list) list" where "ss = [(1, [1]), (2, [2])]"
  have prep: "solve_ivp_prepare (unit_stepper 2) fresh_engine = ((0, [0]), e0)"
    by (simp add: e0_def solve_ivp_prepare_def fixture_defs Let_def)
  have ts0: "engine_ts e0 = [0]"
    by (simp add: e0_def solve_ivp_prepare_def fixture_defs Let_def)
  then have stamps: "engine_ts e0 \<noteq> []" by simp
  have s1: "step (unit_stepper 2) (0, [0]) = (None, (1, [1]))"
    and s2: "step (unit_stepper 2) (1, [1]) = (None, (2, [2]))"
    and s3: "step (unit_stepper 2) (2, [2]) = (Some ''step failed'', (2, [2]))"
    by (simp_all add: unit_stepper_def)
  have chain: "\<forall>i<length ss. step (unit_stepper 2) (((0, [0]) # ss) ! i) = (None, ss ! i)"
    using s1 s2 by (auto simp: ss_def less_Suc_eq)
  have below: "\<forall>i\<le>length ss.
      last (engine_ts e0 @ map (solver_t (unit_stepper 2)) (take i ss)) < 5"
    by (auto simp: ss_def ts0 le_Suc_eq unit_stepper_def)
  have fail: "step (unit_stepper 2) (last ((0, [0]) # ss)) = (Some ''step failed'', (2, [2]))"
    using s3 by (simp add: ss_def)
  from solve_ivp_step_failure[OF prep stamps chain below fail]
  have "\<exists>e'. solve_ivp (unit_stepper 2) fresh_engine 5
                = Some (Inl (SolverError ''step failed''), e')
          \<and> engine_t e' = engine_t fresh_engine \<and> engine_y e' = engine_y fresh_engine
          \<and> engine_solver e' = Some (2, [2]) \<and> engine_ts e' = [0, 1, 2]"
    by (auto simp: ts0 ss_def unit_stepper_def)
  with s1 s2 s3 show ?thesis by blast
qed

section \<open>Length of the state vector\<close>

lemma solve_ivp_loop_keeps_vector:
  assumes "solve_ivp_loop ops tn s e = Some (r, e')"
  shows "engine_y e' = engine_y e"
proof (cases r)
  case (Inl err)
  with assms have "solve_ivp_loop ops tn s e = Some (Inl err, e')" by simp
  from solve_ivp_loop_Inl[OF this] obtain ss where
    "e' = e\<lparr>engine_solver := engine_solver e', engine_ts := engine_ts e',
              engine_interpolants := engine_interpolants e'\<rparr>" by blast
  then show ?thesis by (metis engine.select_convs(3) engine.surjective engine.update_convs(7,8,9))
next
  case (Inr u)
  with assms have "solve_ivp_loop ops tn s e = Some (Inr u, e')" by simp
  from solve_ivp_loop_Inr[OF this] obtain ss where
    "e' = e\<lparr>engine_solver := engine_solver e', engine_ts := engine_ts e',
              engine_interpolants := engine_interpolants e'\<rparr>" by blast
  then show ?thesis by (metis engine.select_convs(3) engine.surjective engine.update_convs(7,8,9))
qed

lemma solve_ivp_loop_keeps_model:
  assumes "solve_ivp_loop ops tn s e = Some (r, e')"
  shows "engine_model e' = engine_model e"
proof (cases r)
  case (Inl err)
  with assms have "solve_ivp_loop ops tn s e = Some (Inl err, e')" by simp
  from solve_ivp_loop_Inl[OF this] obtain ss where
    "e' = e\<lparr>engine_solver := engine_solver e', engine_ts := engine_ts e',
              engine_interpolants := engine_interpolants e'\<rparr>" by blast
  then show ?thesis by (metis engine.select_convs(1) engine.surjective engine.update_convs(7,8,9))
next
  case (Inr u)
  with assms have "solve_ivp_loop ops tn s e = Some (Inr u, e')" by simp
  from solve_ivp_loop_Inr[OF this] obtain ss where
    "e' = e\<lparr>engine_solver := engine_solver e', engine_ts := engine_ts e',
              engine_interpolants := engine_interpolants e'\<rparr>" by blast
  then show ?thesis by (metis engine.select_convs(1) engine.surjective engine.update_convs(7,8,9))
qed

lemma solve_ivp_keeps_model:
  assumes run: "solve_ivp ops e tn = Some (r, e')"
  shows "engine_model e' = engine_model e"
proof -
  from solve_ivp_outcome[OF run] obtain s0 e0 where
    prep: "solve_ivp_prepare ops e = (s0, e0)"
    and alt: "(\<exists>err. solve_ivp_loop ops tn s0 e0 = Some (Inl err, e') \<and> r = Inl err)
              \<or> (\<exists>e1. solve_ivp_loop ops tn s0 e0 = Some (Inr (), e1)
                      \<and> solve_ivp_finish e1 tn = (r, e'))"
    by blast
  note m0 = solve_ivp_prepare_frame(3)[OF prep]
  from alt show ?thesis
  proof
    assume "\<exists>err. solve_ivp_loop ops tn s0 e0 = Some (Inl err, e') \<and> r = Inl err"
    then obtain err where "solve_ivp_loop ops tn s0 e0 = Some (Inl err, e')" by blast
    from solve_ivp_loop_keeps_model[OF this] m0 show ?thesis by simp
  next
    assume "\<exists>e1. solve_ivp_loop ops tn s0 e0 = Some (Inr (), e1)
                      \<and> solve_ivp_finish e1 tn = (r, e')"
    then obtain e1 where loop: "solve_ivp_loop ops tn s0 e0 = Some (Inr (), e1)"
      and fin: "solve_ivp_finish e1 tn = (r, e')" by blast
    from solve_ivp_loop_keeps_model[OF loop] m0 have "engine_model e1 = engine_model e" by simp
    with fin show ?thesis
      by (auto simp: solve_ivp_finish_def Let_def split: list.splits)
  qed
qed

lemma solve_ivp_state_vector:
  assumes run: "solve_ivp ops e tn = Some (r, e')"
  shows "engine_y e' = engine_y e
     \<or> (engine_interpolants e' \<noteq> [] \<and> engine_y e' = last (engine_interpolants e') tn)"
proof -
  from solve_ivp_outcome[OF run] obtain s0 e0 where
    prep: "solve_ivp_prepare ops e = (s0, e0)"
    and alt: "(\<exists>err. solve_ivp_loop ops tn s0 e0 = Some (Inl err, e') \<and> r = Inl err)
              \<or> (\<exists>e1. solve_ivp_loop ops tn s0 e0 = Some (Inr (), e1)
                      \<and> solve_ivp_finish e1 tn = (r, e'))"
    by blast
  note y0 = solve_ivp_prepare_frame(2)[OF prep]
  from alt show ?thesis
  proof
    assume "\<exists>err. solve_ivp_loop ops tn s0 e0 = Some (Inl err, e') \<and> r = Inl err"
    then obtain err where "solve_ivp_loop ops tn s0 e0 = Some (Inl err, e')" by blast
    from solve_ivp_loop_keeps_vector[OF this] y0 show ?thesis by simp
  next
    assume "\<exists>e1. solve_ivp_loop ops tn s0 e0 = Some (Inr (), e1)
                      \<and> solve_ivp_finish e1 tn = (r, e')"
    then obtain e1 where loop: "solve_ivp_loop ops tn s0 e0 = Some (Inr (), e1)"
      and fin: "solve_ivp_finish e1 tn = (r, e')" by blast
    from solve_ivp_loop_keeps_vector[OF loop] y0 have y1: "engine_y e1 = engine_y e" by simp
    show ?thesis
    proof (cases "engine_interpolants e1")
      case Nil
      with fin y1 show ?thesis by (auto simp: solve_ivp_finish_def Let_def)
    next
      case (Cons f fs)
      with fin show ?thesis by (auto simp: solve_ivp_finish_def Let_def)
    qed
  qed
qed

text \<open>
  C9, amended. A constructed engine's vector has one entry per declared variable;
  \<^verbatim>\<open>set_diffvar_values\<close> keeps the length of the vector (and the model), also when it
  raises; \<^verbatim>\<open>restart\<close> without a vector keeps the vector; \<^verbatim>\<open>restart\<close> with a vector
  makes that vector the state, whatever its length; no restart changes the model;
  \<^verbatim>\<open>solve_ivp\<close>, whatever its outcome, keeps the length when the segments it retains
  return vectors of that length at the target, and keeps the model.
\<close>

theorem state_vector_length:
  "length (engine_y (Engine m t0 i0 lo0 hi0))
     = length (diffvars (engine_model (Engine m t0 i0 lo0 hi0)))
   \<and> length (engine_y (snd (set_diffvar_values e vdict))) = length (engine_y e)
   \<and> engine_model (snd (set_diffvar_values e vdict)) = engine_model e
   \<and> engine_y (restart e t None i lo hi) = engine_y e
   \<and> engine_y (restart e t (Some y') i lo hi) = y'
   \<and> engine_model (restart e t y i lo hi) = engine_model e
   \<and> (solve_ivp ops e tn = Some (r, e')
        \<and> (\<forall>f\<in>set (engine_interpolants e'). length (f tn) = length (engine_y e))
       \<longrightarrow> length (engine_y e') = length (engine_y e) \<and> engine_model e' = engine_model e)"
proof -
  have a: "length (engine_y (snd (set_diffvar_values e vdict))) = length (engine_y e)"
    using set_diffvar_loop_length[of vdict "enumerate 0 (diffvars (engine_model e))" "engine_y e"]
    by (auto simp: set_diffvar_values_def split: prod.splits)
  have b: "engine_model (snd (set_diffvar_values e vdict)) = engine_model e"
    by (simp add: set_diffvar_values_def split: prod.splits)
  have c: "length (engine_y e') = length (engine_y e) \<and> engine_model e' = engine_model e"
    if run: "solve_ivp ops e tn = Some (r, e')"
    and segs: "\<forall>f\<in>set (engine_interpolants e'). length (f tn) = length (engine_y e)"
  proof
    from solve_ivp_state_vector[OF run] segs
    show "length (engine_y e') = length (engine_y e)" by auto
    show "engine_model e' = engine_model e" using solve_ivp_keeps_model[OF run] .
  qed
  show ?thesis using a b c by (simp add: restart_fields Engine_def)
qed

theorem state_vector_length_witness:
  "(\<exists>r e'. solve_ivp (unit_stepper 10) running_engine 5 = Some (r, e')
       \<and> list_all (\<lambda>f. length (f 5) = length (engine_y running_engine))
            (engine_interpolants e')
       \<and> length (engine_y e') = length (engine_y running_engine)
       \<and> length (engine_y e') = length (diffvars (engine_model e')))"
proof -
  obtain r e' where run: "solve_ivp (unit_stepper 10) running_engine 5 = Some (r, e')"
    and segs: "list_all (\<lambda>f. length (f 5) = length (engine_y running_engine))
            (engine_interpolants e')"
    and names: "length (diffvars (engine_model running_engine)) = 1"
    and y: "length (engine_y running_engine) = 1"
    by (simp add: running_engine_eq solve_ivp_eval fixture_defs)
  from segs have h: "\<forall>f\<in>set (engine_interpolants e').
      length (f 5) = length (engine_y running_engine)"
    by (simp add: list_all_iff)
  from state_vector_length[of _ _ _ _ _ running_engine _ _ _ _ _ _ _ "unit_stepper 10" 5 r e']
    run h
  have "length (engine_y e') = length (engine_y running_engine)"
    and "engine_model e' = engine_model running_engine" by blast+
  with run segs names y show ?thesis by auto
qed

section \<open>Commands\<close>

lemmas session_eval = process_def COMMAND_FUNCS_def solve_ivp_command_def
  np_arange_def ode_solution_call_array_def ode_solution_call_def searchsorted_left_def
  py_index_def solution_response_def row_def failure_def upt_conv_Cons

text \<open>
  When the span from the previous time to the target is a whole number \<open>k\<close> of positive
  intervals, the grid \<^verbatim>\<open>np.arange(tprev, tn + tstep, tstep)\<close> has the \<open>k + 1\<close> points from
  the previous time to the target, the target included.
\<close>

lemma np_arange_whole_intervals:
  assumes "0 < h"
  shows "np_arange a (a + real k * h + h) h = Inr (map (\<lambda>i. a + real i * h) [0..<Suc k])"
    and "last (map (\<lambda>i. a + real i * h) [0..<Suc k]) = a + real k * h"
proof -
  have "(a + real k * h + h - a) / h = real (Suc k)"
    using assms by (simp add: field_simps)
  then have "nat \<lceil>(a + real k * h + h - a) / h\<rceil> = Suc k"
    by (simp only: ceiling_of_nat nat_int)
  then show "np_arange a (a + real k * h + h) h = Inr (map (\<lambda>i. a + real i * h) [0..<Suc k])"
    using assms unfolding np_arange_def by (simp del: upt_Suc)
  show "last (map (\<lambda>i. a + real i * h) [0..<Suc k]) = a + real k * h"
    by simp
qed

text \<open>
  C6 fails on the code. The grid is \<^verbatim>\<open>np.arange(tprev, tn + tstep, tstep)\<close>: when the span
  \<open>tn - tprev\<close> is not a whole number of intervals its last point lies beyond \<open>tn\<close> and
  \<open>tn\<close> itself is not on it. From time 0, a \<^verbatim>\<open>SOLVE_IVP\<close> to 1 with interval 3/10 answers
  the grid 0, 3/10, 3/5, 9/10, 6/5.
\<close>

theorem solve_ivp_grid_overshoots:
  "(\<exists>s'. process (unit_stepper 10) h initialized_session
            (Request SOLVE_IVP (SolveIVPParam 1 (3 / 10)))
          = Some (Inr (SolutionResponse [0, 3 / 10, 3 / 5, 9 / 10, 6 / 5]
                         [[1, 1, 1, 1, 1]] []), s'))
   \<and> np_arange 0 (1 + 3 / 10) (3 / 10) = Inr [0, 3 / 10, 3 / 5, 9 / 10, 6 / 5]
   \<and> (1::real) < last [0, 3 / 10, 3 / 5, 9 / 10, 6 / 5]
   \<and> (1::real) \<notin> set [0, 3 / 10, 3 / 5, 9 / 10, 6 / 5]"
  by (simp add: session_eval initialized_session_def solve_ivp_eval fixture_defs)

text \<open>
  C8 fails on the code. \<^verbatim>\<open>_get_current_val\<close> and \<^verbatim>\<open>_get_diffvar_name\<close> read
  \<^verbatim>\<open>self.engine\<close> and \<^verbatim>\<open>self.model\<close> outside any \<^verbatim>\<open>try\<close>: on a new session, before
  \<^verbatim>\<open>INIT\<close>, \<^verbatim>\<open>process\<close> raises \<^verbatim>\<open>AttributeError\<close> and returns no response, whereas
  \<^verbatim>\<open>_set_diffvar_val\<close> in the same state answers a failure response. A message that
  does not parse raises as well.
\<close>

theorem process_raises_before_init:
  "process ops h Session (Request GET_CURRENT_VAL p) = Some (Inl AttributeError, Session)
   \<and> process ops h Session (Request GET_DIFFVAR_NAME p) = Some (Inl AttributeError, Session)
   \<and> process ops h Session (Request SET_DIFFVAR_VAL p)
       = Some (Inr (StatusResponse False (Some AttributeError)),
               Session\<lparr>restart_needed := Some True\<rparr>)
   \<and> process ops h s Undecodable = Some (Inl DecodeError, s)"
  by (simp add: process_def COMMAND_FUNCS_def get_current_val_def get_diffvar_name_def
        set_diffvar_val_def failure_def Session_def)

end
